theory Spec2Isabelle
  imports Main
begin

section \<open>Data model of generateAllPlans.ts\<close>

text \<open>
  The two failures the TypeScript can raise: a failed \<open>assert\<close> (with its message; the
  interpolated index of the dynamic messages is left out), and the \<open>TypeError\<close> of
  reading \<open>.length\<close> of \<open>undefined\<close>.
\<close>

datatype error = AssertionError string | TypeError

text \<open>\<open>type Choices<T> = (T | undefined)[]\<close>: a slot is \<open>Some e\<close> or \<open>None\<close> (undefined).\<close>

type_synonym 'e Choices = "'e option list"

record ('p, 'e) Partial =
  partial :: 'p
  remaining :: "'e Choices list"
  isRoot :: bool
  index :: "nat option"

text \<open>The object \<open>{ best, cost }\<close> held by the variable \<open>min\<close> and returned at the end.\<close>

record ('p, 'c) best_cost =
  best :: 'p
  cost :: 'c

text \<open>The object \<open>{ extracted, isLast, updatedChoices }\<close> returned by \<open>extract\<close>.\<close>

record 'e extraction =
  extracted :: 'e
  isLast :: bool
  updatedChoices :: "'e Choices"

text \<open>
  The mutable state of one call of the driver: the array \<open>stack\<close> (in the order of the
  JavaScript array, so \<open>pop\<close> and \<open>push\<close> work on the last element and \<open>unshift\<close> on the
  first), the variable \<open>min\<close> (\<open>min_plan\<close> here, \<open>min\<close> being a constant of HOL), and
  the calls made to the observer \<open>onPlan\<close> so far, oldest first, each with its three
  arguments.
\<close>

record ('p, 'e, 'c) state =
  stack :: "('p, 'e) Partial list"
  min_plan :: "('p, 'c) best_cost option"
  onPlan_calls :: "('p \<times> 'c \<times> 'c option) list"

section \<open>The helpers\<close>

text \<open>The \<open>for\<close> loop of \<open>pickNext\<close>, from counter \<open>i\<close> on; \<open>None\<close> when it falls through.\<close>

function scan :: "nat \<Rightarrow> 'e Choices \<Rightarrow> nat option" where
  "scan i rem =
     (if i < length rem
      then (if rem ! i \<noteq> None then Some i else scan (Suc i) rem)
      else None)"
  by pat_completeness auto
termination
  by (relation "measure (\<lambda>(i, rem). length rem - i)") auto

declare scan.simps [simp del]

definition pickNext :: "nat option \<Rightarrow> 'e Choices \<Rightarrow> error + nat" where
  "pickNext idx rem =
     (if idx = None \<or> the idx \<ge> length rem
      then (case scan 0 rem of
              Some i \<Rightarrow> Inr i
            | None \<Rightarrow> Inl (AssertionError ''Passed a remaining with all undefined''))
      else (if rem ! (the idx) \<noteq> None then Inr (the idx)
            else Inl (AssertionError ''Invalid index'')))"

text \<open>
  One round of the \<open>for\<close> loop of \<open>extract\<close>, on the pair of \<open>isLast\<close> and
  \<open>updatedChoices\<close>.
\<close>

definition extract_round ::
  "nat \<Rightarrow> 'e Choices \<Rightarrow> nat \<Rightarrow> bool \<times> 'e Choices \<Rightarrow> bool \<times> 'e Choices" where
  "extract_round idx choices i acc =
     (if i \<noteq> idx
      then (fst acc \<and> choices ! i = None, (snd acc)[i := choices ! i])
      else acc)"

text \<open>
  The function \<open>extract\<close> (the name is a keyword of Isabelle, hence the suffix).
  \<open>choices[index]\<close> out of range reads \<open>undefined\<close>, so the assertion fails there too.
  \<open>new Array(n)\<close> is \<open>n\<close> slots that read \<open>undefined\<close>.
\<close>

definition extract_slot :: "nat \<Rightarrow> 'e Choices \<Rightarrow> error + 'e extraction" where
  "extract_slot idx choices =
     (case (if idx < length choices then choices ! idx else None) of
        None \<Rightarrow> Inl (AssertionError ''Index of choices is undefined'')
      | Some e \<Rightarrow>
          (let acc = fold (extract_round idx choices) [0..<length choices]
                       (True, replicate (length choices) None)
           in Inr \<lparr>extracted = e, isLast = fst acc, updatedChoices = snd acc\<rparr>))"

definition insertInStack ::
  "('p, 'e) Partial \<Rightarrow> ('p, 'e) Partial list \<Rightarrow> ('p, 'e) Partial list" where
  "insertInStack elt stk = (if index elt \<noteq> None then stk @ [elt] else elt # stk)"

section \<open>The driver\<close>

text \<open>
  The preferred index of the re-inserted work item:
  \<open>isRoot && index !== undefined && index < nextChoices.length - 1 ? index + 1 : undefined\<close>.
\<close>

definition sibling_index :: "bool \<Rightarrow> nat option \<Rightarrow> 'e Choices \<Rightarrow> nat option" where
  "sibling_index root idx nextChoices =
     (if root \<and> idx \<noteq> None \<and> int (the idx) < int (length nextChoices) - 1
      then Some (the idx + 1) else None)"

text \<open>
  One pass through the body of the \<open>while\<close> loop, for a non-empty stack. A work item with
  an empty \<open>remaining\<close> has \<open>remaining[0] === undefined\<close>, and \<open>pickNext\<close> then reads
  \<open>undefined.length\<close>. Costs are only compared, with \<open><\<close> and \<open>>=\<close>: the model takes
  them from any linear order (so \<open>NaN\<close>, which compares false with everything, is left
  out). The call of \<open>onPlan\<close> is recorded with its arguments.
\<close>

definition iteration ::
  "('p \<Rightarrow> 'e \<Rightarrow> 'p) \<Rightarrow> ('p \<Rightarrow> 'c::linorder) \<Rightarrow> ('p, 'e, 'c) state \<Rightarrow> error + ('p, 'e, 'c) state" where
  "iteration addFct costFct s =
     (let item = last (stack s); stack1 = butlast (stack s) in
      case remaining item of
        [] \<Rightarrow> Inl TypeError
      | nextChoices # otherChoices \<Rightarrow>
         (case pickNext (index item) nextChoices of
            Inl e \<Rightarrow> Inl e
          | Inr pickedIndex \<Rightarrow>
             (case extract_slot pickedIndex nextChoices of
                Inl e \<Rightarrow> Inl e
              | Inr x \<Rightarrow>
                 (let stack2 =
                        (if \<not> isLast x
                         then insertInStack
                                \<lparr>partial = partial item,
                                 remaining = updatedChoices x # otherChoices,
                                 isRoot = isRoot item,
                                 index = sibling_index (isRoot item) (index item) nextChoices\<rparr>
                                stack1
                         else stack1);
                      newPartial = addFct (partial item) (extracted x)
                  in if otherChoices = []
                     then (let c = costFct newPartial;
                               isNewMin = (case min_plan s of None \<Rightarrow> True | Some m \<Rightarrow> c < cost m)
                           in Inr \<lparr>stack = stack2,
                                   min_plan = (if isNewMin then Some \<lparr>best = newPartial, cost = c\<rparr>
                                               else min_plan s),
                                   onPlan_calls = onPlan_calls s
                                      @ [(newPartial, c, map_option cost (min_plan s))]\<rparr>)
                     else if (case min_plan s of None \<Rightarrow> False
                              | Some m \<Rightarrow> costFct newPartial \<ge> cost m)
                     then Inr (s\<lparr>stack := stack2\<rparr>)
                     else Inr (s\<lparr>stack := insertInStack
                                   \<lparr>partial = newPartial,
                                    remaining = otherChoices,
                                    isRoot = False,
                                    index = index item\<rparr>
                                   stack2\<rparr>)))))"


text \<open>
  The initial stack: one root work item with preferred index 0, holding \<open>toAdd\<close> as it is
  passed; no best plan yet. The signature declares \<open>toAdd: E[][]\<close>, but the arrays are
  stored and read as \<open>Choices\<close>: an \<open>undefined\<close> element or a hole of an array passed in
  is an empty slot to \<open>pickNext\<close> and \<open>extract\<close>.
\<close>

definition initial_state :: "'p \<Rightarrow> 'e Choices list \<Rightarrow> ('p, 'e, 'c) state" where
  "initial_state initial toAdd =
     \<lparr>stack = [\<lparr>partial = initial, remaining = toAdd, isRoot = True, index = Some 0\<rparr>],
      min_plan = None,
      onPlan_calls = []\<rparr>"

text \<open>Measure of the loop: the number of slots a work item can still lead to.\<close>

definition populated :: "'e Choices \<Rightarrow> nat" where
  "populated c = length (filter (\<lambda>x. x \<noteq> None) c)"

fun work :: "'e Choices list \<Rightarrow> nat" where
  "work [] = 0"
| "work (c # cs) = populated c * Suc (work cs)"

definition stack_work :: "('p, 'e) Partial list \<Rightarrow> nat" where
  "stack_work stk = sum_list (map (\<lambda>it. work (remaining it)) stk)"

section \<open>Facts about the helpers\<close>

lemma scan_Some:
  "scan i c = Some j \<Longrightarrow> i \<le> j \<and> j < length c \<and> c ! j \<noteq> None \<and> (\<forall>k. i \<le> k \<and> k < j \<longrightarrow> c ! k = None)"
proof (induction i c rule: scan.induct)
  case (1 i c)
  show ?case
  proof (cases "i < length c \<and> c ! i = None")
    case True
    then have "scan (Suc i) c = Some j" using "1.prems" by (simp add: scan.simps [of i])
    then have ih: "Suc i \<le> j \<and> j < length c \<and> c ! j \<noteq> None \<and> (\<forall>k. Suc i \<le> k \<and> k < j \<longrightarrow> c ! k = None)"
      using "1.IH" True by simp
    have "\<forall>k. i \<le> k \<and> k < j \<longrightarrow> c ! k = None"
    proof (intro allI impI)
      fix k assume "i \<le> k \<and> k < j"
      then show "c ! k = None" using ih True by (cases "k = i") auto
    qed
    then show ?thesis using ih by simp
  next
    case False
    then show ?thesis using "1.prems" by (auto simp: scan.simps [of i] split: if_splits)
  qed
qed

lemma scan_None:
  "scan i c = None \<Longrightarrow> i \<le> k \<Longrightarrow> k < length c \<Longrightarrow> c ! k = None"
proof (induction i c rule: scan.induct)
  case (1 i c)
  have il: "i < length c" using "1.prems" by simp
  have ci: "c ! i = None" using "1.prems"(1) il by (simp add: scan.simps [of i] split: if_splits)
  show ?case
  proof (cases "k = i")
    case True
    then show ?thesis using ci by simp
  next
    case False
    have "scan (Suc i) c = None" using "1.prems"(1) il ci by (simp add: scan.simps [of i])
    then show ?thesis using "1.IH" il ci False "1.prems" by simp
  qed
qed

lemma pickNext_Inr:
  "pickNext idx c = Inr j \<Longrightarrow> j < length c \<and> c ! j \<noteq> None"
  by (auto simp: pickNext_def split: if_splits option.splits dest: scan_Some)

lemma fold_extract_round:
  "n \<le> length c \<Longrightarrow> length u = length c \<Longrightarrow>
   fold (extract_round idx c) [0..<n] (b, u) =
     (b \<and> (\<forall>k<n. k \<noteq> idx \<longrightarrow> c ! k = None),
      map (\<lambda>k. if k < n \<and> k \<noteq> idx then c ! k else u ! k) [0..<length c])"
proof (induction n)
  case 0
  have "map (\<lambda>k. u ! k) [0..<length c] = u" using 0 map_nth [of u] by simp
  then show ?case by simp
next
  case (Suc n)
  let ?U = "map (\<lambda>k. if k < n \<and> k \<noteq> idx then c ! k else u ! k) [0..<length c]"
  let ?B = "b \<and> (\<forall>k<n. k \<noteq> idx \<longrightarrow> c ! k = None)"
  have ih: "fold (extract_round idx c) [0..<n] (b, u) = (?B, ?U)"
    using Suc by simp
  have step: "fold (extract_round idx c) [0..<Suc n] (b, u) = extract_round idx c n (?B, ?U)"
    using ih by simp
  show ?case
  proof (cases "n = idx")
    case True
    have "?U = map (\<lambda>k. if k < Suc n \<and> k \<noteq> idx then c ! k else u ! k) [0..<length c]"
      using True by (simp add: less_Suc_eq)
    moreover have "(\<forall>k<Suc n. k \<noteq> idx \<longrightarrow> c ! k = None) = (\<forall>k<n. k \<noteq> idx \<longrightarrow> c ! k = None)"
      using True by (auto simp: less_Suc_eq)
    ultimately show ?thesis unfolding step using True by (simp add: extract_round_def)
  next
    case False
    have "?U[n := c ! n] = map (\<lambda>k. if k < Suc n \<and> k \<noteq> idx then c ! k else u ! k) [0..<length c]"
      using False Suc.prems by (intro nth_equalityI) (auto simp: nth_list_update less_Suc_eq)
    moreover have "(\<forall>k<Suc n. k \<noteq> idx \<longrightarrow> c ! k = None) = ((\<forall>k<n. k \<noteq> idx \<longrightarrow> c ! k = None) \<and> c ! n = None)"
      using False by (auto simp: less_Suc_eq)
    ultimately show ?thesis unfolding step using False by (simp add: extract_round_def)
  qed
qed

lemma extract_slot_Inr:
  assumes "j < length c" and "c ! j = Some e"
  shows "extract_slot j c =
           Inr \<lparr>extracted = e,
                isLast = (\<forall>k<length c. k \<noteq> j \<longrightarrow> c ! k = None),
                updatedChoices = c[j := None]\<rparr>"
proof -
  have "map (\<lambda>k. if k < length c \<and> k \<noteq> j then c ! k else replicate (length c) None ! k) [0..<length c]
        = c[j := None]"
    by (intro nth_equalityI) (auto simp: nth_list_update)
  then show ?thesis
    using assms fold_extract_round [of "length c" c "replicate (length c) None" j True]
    by (simp add: extract_slot_def)
qed

lemma extract_slot_Inl:
  "j \<ge> length c \<or> c ! j = None \<Longrightarrow>
   extract_slot j c = Inl (AssertionError ''Index of choices is undefined'')"
  by (auto simp: extract_slot_def)

lemma populated_clear:
  "j < length c \<Longrightarrow> c ! j \<noteq> None \<Longrightarrow> populated c = Suc (populated (c[j := None]))"
proof (induction c arbitrary: j)
  case Nil
  then show ?case by simp
next
  case (Cons x xs)
  then show ?case by (cases j) (auto simp: populated_def)
qed

lemma stack_work_insertInStack [simp]:
  "stack_work (insertInStack elt stk) = work (remaining elt) + stack_work stk"
  by (simp add: insertInStack_def stack_work_def)

lemma stack_work_snoc [simp]:
  "stack_work (stk @ [item]) = stack_work stk + work (remaining item)"
  by (simp add: stack_work_def)

text \<open>
  What one successful pass through the loop body does, with the helpers' results written
  out: the popped item \<open>item\<close>, the picked slot \<open>j\<close> and its candidate \<open>e\<close>.
\<close>

definition sibling :: "('p, 'e) Partial \<Rightarrow> 'e Choices \<Rightarrow> 'e Choices list \<Rightarrow> nat \<Rightarrow> ('p, 'e) Partial" where
  "sibling item c rest j =
     \<lparr>partial = partial item, remaining = c[j := None] # rest, isRoot = isRoot item,
      index = sibling_index (isRoot item) (index item) c\<rparr>"

definition continuation :: "('p \<Rightarrow> 'e \<Rightarrow> 'p) \<Rightarrow> ('p, 'e) Partial \<Rightarrow> 'e Choices list \<Rightarrow> 'e \<Rightarrow> ('p, 'e) Partial" where
  "continuation addFct item rest e =
     \<lparr>partial = addFct (partial item) e, remaining = rest, isRoot = False, index = index item\<rparr>"

definition after_sibling ::
  "('p, 'e) Partial list \<Rightarrow> ('p, 'e) Partial \<Rightarrow> 'e Choices \<Rightarrow> 'e Choices list \<Rightarrow> nat \<Rightarrow> ('p, 'e) Partial list" where
  "after_sibling stk1 item c rest j =
     (if \<exists>k<length c. k \<noteq> j \<and> c ! k \<noteq> None
      then insertInStack (sibling item c rest j) stk1 else stk1)"

lemma iteration_eq:
  assumes "remaining (last (stack s)) = c # rest" and "pickNext (index (last (stack s))) c = Inr j"
    and "j < length c" and "c ! j = Some e"
  shows "iteration addFct costFct s =
     Inr (if rest = []
          then \<lparr>stack = after_sibling (butlast (stack s)) (last (stack s)) c rest j,
                min_plan = (if (case min_plan s of None \<Rightarrow> True
                                | Some m \<Rightarrow> costFct (addFct (partial (last (stack s))) e) < cost m)
                            then Some \<lparr>best = addFct (partial (last (stack s))) e,
                                       cost = costFct (addFct (partial (last (stack s))) e)\<rparr>
                            else min_plan s),
                onPlan_calls = onPlan_calls s
                   @ [(addFct (partial (last (stack s))) e,
                       costFct (addFct (partial (last (stack s))) e),
                       map_option cost (min_plan s))]\<rparr>
          else if (case min_plan s of None \<Rightarrow> False
                   | Some m \<Rightarrow> costFct (addFct (partial (last (stack s))) e) \<ge> cost m)
          then s\<lparr>stack := after_sibling (butlast (stack s)) (last (stack s)) c rest j\<rparr>
          else s\<lparr>stack := insertInStack (continuation addFct (last (stack s)) rest e)
                              (after_sibling (butlast (stack s)) (last (stack s)) c rest j)\<rparr>)"
proof -
  have nl: "(\<not> (\<forall>k<length c. k \<noteq> j \<longrightarrow> c ! k = None)) = (\<exists>k<length c. k \<noteq> j \<and> c ! k \<noteq> None)"
    by auto
  have a: "(if \<exists>k<length c. k \<noteq> j \<and> c ! k \<noteq> None
            then insertInStack
                   \<lparr>partial = partial (last (stack s)), remaining = c[j := None] # rest,
                    isRoot = isRoot (last (stack s)),
                    index = sibling_index (isRoot (last (stack s))) (index (last (stack s))) c\<rparr>
                   (butlast (stack s))
            else butlast (stack s))
           = after_sibling (butlast (stack s)) (last (stack s)) c rest j"
    by (auto simp: after_sibling_def sibling_def)
  have b: "\<lparr>partial = addFct (partial (last (stack s))) e, remaining = rest, isRoot = False,
            index = index (last (stack s))\<rparr> = continuation addFct (last (stack s)) rest e"
    by (simp add: continuation_def)
  show ?thesis
    unfolding iteration_def Let_def assms(1) list.case assms(2) sum.case
      extract_slot_Inr [OF assms(3,4)] extraction.simps nl a b
    by simp
qed

lemma iteration_Inr:
  assumes "iteration addFct costFct s = Inr s'" and "stack s \<noteq> []"
  obtains item stk1 c rest j e where
    "stack s = stk1 @ [item]" and "remaining item = c # rest" and
    "pickNext (index item) c = Inr j" and "j < length c" and "c ! j = Some e" and
    "rest = [] \<Longrightarrow>
       s' = \<lparr>stack = after_sibling stk1 item c rest j,
             min_plan = (if (case min_plan s of None \<Rightarrow> True
                              | Some m \<Rightarrow> costFct (addFct (partial item) e) < cost m)
                         then Some \<lparr>best = addFct (partial item) e, cost = costFct (addFct (partial item) e)\<rparr>
                         else min_plan s),
             onPlan_calls = onPlan_calls s
                @ [(addFct (partial item) e, costFct (addFct (partial item) e), map_option cost (min_plan s))]\<rparr>" and
    "rest \<noteq> [] \<Longrightarrow>
       s' = (if (case min_plan s of None \<Rightarrow> False | Some m \<Rightarrow> costFct (addFct (partial item) e) \<ge> cost m)
             then s\<lparr>stack := after_sibling stk1 item c rest j\<rparr>
             else s\<lparr>stack := insertInStack (continuation addFct item rest e) (after_sibling stk1 item c rest j)\<rparr>)"
proof -
  let ?item = "last (stack s)" and ?stk1 = "butlast (stack s)"
  have st: "stack s = ?stk1 @ [?item]" using assms(2) by simp
  obtain c rest where rem: "remaining ?item = c # rest"
    using assms(1) by (cases "remaining ?item") (auto simp: iteration_def Let_def)
  obtain j where pick: "pickNext (index ?item) c = Inr j"
    using assms(1) rem by (cases "pickNext (index ?item) c") (auto simp: iteration_def Let_def)
  have j: "j < length c" "c ! j \<noteq> None" using pickNext_Inr [OF pick] by auto
  then obtain e where e: "c ! j = Some e" by auto
  note eq = assms(1) [unfolded iteration_eq [OF rem pick j(1) e]]
  show thesis
    by (rule that [OF st rem pick j(1) e]) (use eq in \<open>simp_all\<close>)
qed

lemma iteration_decreases:
  assumes "iteration addFct costFct s = Inr s'" and "stack s \<noteq> []"
  shows "stack_work (stack s') < stack_work (stack s)"
proof -
  from assms obtain item stk1 c rest j e where
    st: "stack s = stk1 @ [item]" and rem: "remaining item = c # rest" and
    j: "j < length c" "c ! j = Some e" and
    fin: "rest = [] \<Longrightarrow> stack s' = after_sibling stk1 item c rest j" and
    cont: "rest \<noteq> [] \<Longrightarrow> stack s' = after_sibling stk1 item c rest j \<or>
             stack s' = insertInStack (continuation addFct item rest e) (after_sibling stk1 item c rest j)"
    by (rule iteration_Inr) (auto split: if_splits)
  have pop: "populated c = Suc (populated (c[j := None]))"
    using populated_clear j by fastforce
  have sib: "stack_work (after_sibling stk1 item c rest j)
               \<le> stack_work stk1 + populated (c[j := None]) * Suc (work rest)"
    by (simp add: after_sibling_def sibling_def)
  have item: "stack_work (stack s) = stack_work stk1 + populated (c[j := None]) * Suc (work rest) + Suc (work rest)"
    using st rem pop by simp
  show ?thesis
  proof (cases "rest = []")
    case True
    then show ?thesis using fin sib item by simp
  next
    case False
    then show ?thesis using cont sib item by (auto simp: continuation_def)
  qed
qed

text \<open>
  The \<open>while\<close> loop. It is total: every pass that does not fail takes one populated
  slot out of the work still to do.
\<close>

function loop ::
  "('p \<Rightarrow> 'e \<Rightarrow> 'p) \<Rightarrow> ('p \<Rightarrow> 'c::linorder) \<Rightarrow> ('p, 'e, 'c) state \<Rightarrow> error + ('p, 'e, 'c) state" where
  "loop addFct costFct s =
     (if stack s = [] then Inr s
      else (case iteration addFct costFct s of
              Inl err \<Rightarrow> Inl err
            | Inr s' \<Rightarrow> loop addFct costFct s'))"
  by pat_completeness auto
termination
  by (relation "measure (\<lambda>(addFct, costFct, s). stack_work (stack s))")
     (auto simp: iteration_decreases)

declare loop.simps [simp del]

text \<open>
  The exported function: the loop from the initial stack, then
  \<open>assert(min, 'A plan should have been found')\<close>.
\<close>

definition generateAllPlansAndFindBest ::
  "'p \<Rightarrow> 'e Choices list \<Rightarrow> ('p \<Rightarrow> 'e \<Rightarrow> 'p) \<Rightarrow> ('p \<Rightarrow> 'c::linorder) \<Rightarrow> error + ('p, 'c) best_cost" where
  "generateAllPlansAndFindBest initial toAdd addFct costFct =
     (case loop addFct costFct (initial_state initial toAdd) of
        Inl err \<Rightarrow> Inl err
      | Inr s \<Rightarrow>
         (case min_plan s of
            None \<Rightarrow> Inl (AssertionError ''A plan should have been found'')
          | Some m \<Rightarrow> Inr m))"

section \<open>The candidate extractor\<close>

text \<open>
  C5. When slot \<open>j\<close> of \<open>c\<close> holds a candidate, \<open>extract\<close> returns that candidate, the
  choice set \<open>c\<close> with slot \<open>j\<close> cleared and every other slot (and the length) unchanged,
  and \<open>isLast\<close> true exactly when all slots other than \<open>j\<close> were empty in \<open>c\<close>. When slot
  \<open>j\<close> is empty (or \<open>j\<close> is out of range), the assertion fails.
\<close>

theorem extract_contract:
  "(j < length c \<and> c ! j = Some e \<longrightarrow>
      extract_slot j c =
        Inr \<lparr>extracted = e,
             isLast = (\<forall>k<length c. k \<noteq> j \<longrightarrow> c ! k = None),
             updatedChoices = c[j := None]\<rparr>) \<and>
   (j \<ge> length c \<or> c ! j = None \<longrightarrow>
      (\<exists>msg. extract_slot j c = Inl (AssertionError msg)))"
  using extract_slot_Inr [of j c e] extract_slot_Inl [of c j] by blast

theorem extract_contract_witness:
  "extract_slot 1 [Some (7::nat), Some 8, None] =
     Inr \<lparr>extracted = 8, isLast = False, updatedChoices = [Some 7, None, None]\<rparr> \<and>
   extract_slot 0 [Some (7::nat), None, None] =
     Inr \<lparr>extracted = 7, isLast = True, updatedChoices = [None, None, None]\<rparr> \<and>
   extract_slot 2 [Some (7::nat), Some 8, None] = Inl (AssertionError ''Index of choices is undefined'')"
proof -
  have a: "(\<forall>k<length [Some (7::nat), Some 8, None]. k \<noteq> 1 \<longrightarrow> [Some (7::nat), Some 8, None] ! k = None) = False"
    by auto
  have b: "(\<forall>k<length [Some (7::nat), None, None]. k \<noteq> 0 \<longrightarrow> [Some (7::nat), None, None] ! k = None) = True"
    by (auto simp: less_Suc_eq)
  have c: "extract_slot 2 [Some (7::nat), Some 8, None] = Inl (AssertionError ''Index of choices is undefined'')"
    by (simp add: extract_slot_def)
  show ?thesis
    using extract_contract [of 1 "[Some (7::nat), Some 8, None]" 8]
      extract_contract [of 0 "[Some (7::nat), None, None]" 7]
    unfolding a b by (simp add: c)
qed

section \<open>The slot selector\<close>

text \<open>
  C6. Without a preferred index, or with one that is out of range, \<open>pickNext\<close> returns the
  first populated slot (a populated slot with only empty slots before it), and fails an
  assertion when no slot is populated. With a preferred index in range it returns that
  index as it is when the slot is populated, whatever the slots before it hold, and fails
  an assertion when the slot is empty.
\<close>

theorem pickNext_contract:
  "(idx = None \<or> (\<exists>i. idx = Some i \<and> i \<ge> length c) \<longrightarrow>
      (if \<exists>k<length c. c ! k \<noteq> None
       then \<exists>k. pickNext idx c = Inr k \<and> k < length c \<and> c ! k \<noteq> None \<and> (\<forall>m<k. c ! m = None)
       else \<exists>msg. pickNext idx c = Inl (AssertionError msg))) \<and>
   (\<forall>i. idx = Some i \<and> i < length c \<longrightarrow>
      (if c ! i \<noteq> None then pickNext idx c = Inr i
       else \<exists>msg. pickNext idx c = Inl (AssertionError msg)))"
proof (intro conjI impI allI)
  assume out: "idx = None \<or> (\<exists>i. idx = Some i \<and> i \<ge> length c)"
  then have pk: "pickNext idx c =
      (case scan 0 c of Some i \<Rightarrow> Inr i
       | None \<Rightarrow> Inl (AssertionError ''Passed a remaining with all undefined''))"
    by (auto simp: pickNext_def)
  show "if \<exists>k<length c. c ! k \<noteq> None
        then \<exists>k. pickNext idx c = Inr k \<and> k < length c \<and> c ! k \<noteq> None \<and> (\<forall>m<k. c ! m = None)
        else \<exists>msg. pickNext idx c = Inl (AssertionError msg)"
  proof (cases "scan 0 c")
    case None
    then have "\<not> (\<exists>k<length c. c ! k \<noteq> None)" using scan_None [of 0 c] by auto
    then show ?thesis using pk None by simp
  next
    case (Some k)
    from scan_Some [OF Some] have "k < length c" "c ! k \<noteq> None" "\<forall>m<k. c ! m = None" by auto
    then show ?thesis using pk Some by auto
  qed
next
  fix i assume "idx = Some i \<and> i < length c"
  then show "if c ! i \<noteq> None then pickNext idx c = Inr i
             else \<exists>msg. pickNext idx c = Inl (AssertionError msg)"
    by (simp add: pickNext_def)
qed

theorem pickNext_contract_witness:
  "pickNext None [None, Some (7::nat), Some 8] = Inr 1 \<and>
   pickNext (Some 5) [None, Some (7::nat), Some 8] = Inr 1 \<and>
   pickNext (Some 2) [None, Some (7::nat), Some 8] = Inr 2 \<and>
   pickNext None [None, None :: nat option] = Inl (AssertionError ''Passed a remaining with all undefined'') \<and>
   pickNext (Some 0) [None, Some (7::nat), Some 8] = Inl (AssertionError ''Invalid index'')"
proof -
  let ?c = "[None, Some (7::nat), Some 8]"
  have ex: "\<exists>k<length ?c. ?c ! k \<noteq> None" by (rule exI [of _ 1]) simp
  have one: "k < length ?c \<and> ?c ! k \<noteq> None \<and> (\<forall>m<k. ?c ! m = None) \<Longrightarrow> k = 1" for k
    by (cases k) (auto simp: nth_Cons' split: if_splits)
  have a: "pickNext None ?c = Inr 1"
    using pickNext_contract [of None ?c] ex one by auto
  have b: "pickNext (Some 5) ?c = Inr 1"
    using pickNext_contract [of "Some 5" ?c] ex one by auto
  have c: "pickNext (Some 2) ?c = Inr 2"
    using pickNext_contract [of "Some 2" ?c] by simp
  have d: "pickNext None [None, None :: nat option] = Inl (AssertionError ''Passed a remaining with all undefined'')"
    by (simp add: pickNext_def scan.simps)
  have e: "pickNext (Some 0) ?c = Inl (AssertionError ''Invalid index'')"
    by (simp add: pickNext_def)
  show ?thesis using a b c d e by simp
qed

section \<open>The concrete three-piece scenario\<close>

text \<open>
  Candidates are tagged with their cost contribution, a plan is the list of the candidates
  added so far, and the cost of a plan is the sum of the contributions (so the empty
  initial plan costs 0).
\<close>

definition add_candidate :: "(string \<times> int) list \<Rightarrow> string \<times> int \<Rightarrow> (string \<times> int) list" where
  "add_candidate p e = p @ [e]"

definition additive_cost :: "(string \<times> int) list \<Rightarrow> int" where
  "additive_cost p = sum_list (map snd p)"

definition three_pieces :: "(string \<times> int) Choices list" where
  "three_pieces =
     [[Some (''a1'', 1), Some (''a2'', 5)], [Some (''b1'', 2), Some (''b2'', 1)], [Some (''c1'', 0)]]"

text \<open>
  C2, as stated: the best plan is \<open>{a1, b2, c1}\<close> with total cost 3. The code does not
  return that pair.
\<close>

theorem three_pieces_cost_3_counterexample:
  "generateAllPlansAndFindBest [] three_pieces add_candidate additive_cost
     \<noteq> Inr \<lparr>best = [(''a1'', 1), (''b2'', 1), (''c1'', 0)], cost = 3\<rparr>"
  by code_simp

text \<open>
  C2, amended: on the three-piece input the best plan is \<open>{a1, b2, c1}\<close>, and its total
  cost is 1 + 1 + 0 = 2.
\<close>

theorem three_pieces_best:
  "generateAllPlansAndFindBest [] three_pieces add_candidate additive_cost
     = Inr \<lparr>best = [(''a1'', 1), (''b2'', 1), (''c1'', 0)], cost = 2\<rparr>"
  by code_simp

theorem three_pieces_best_witness:
  "map_sum id cost (generateAllPlansAndFindBest [] three_pieces add_candidate additive_cost) = Inr 2"
  using three_pieces_best by simp

section \<open>Runs of the loop\<close>

text \<open>
  The state after \<open>n\<close> passes through the loop body (the final state, when the loop has
  ended before).
\<close>

fun passes ::
  "nat \<Rightarrow> ('p \<Rightarrow> 'e \<Rightarrow> 'p) \<Rightarrow> ('p \<Rightarrow> 'c::linorder) \<Rightarrow> ('p, 'e, 'c) state \<Rightarrow> error + ('p, 'e, 'c) state" where
  "passes 0 addFct costFct s = Inr s"
| "passes (Suc n) addFct costFct s =
     (if stack s = [] then Inr s
      else (case iteration addFct costFct s of
              Inl err \<Rightarrow> Inl err
            | Inr s' \<Rightarrow> passes n addFct costFct s'))"

lemma passes_invariant:
  assumes "passes n addFct costFct s = Inr s'" and "I s"
    and "\<And>t t'. I t \<Longrightarrow> stack t \<noteq> [] \<Longrightarrow> iteration addFct costFct t = Inr t' \<Longrightarrow> I t'"
  shows "I s'"
  using assms(1,2)
proof (induction n arbitrary: s)
  case 0
  then show ?case by simp
next
  case (Suc n)
  show ?case
  proof (cases "stack s = []")
    case True
    then show ?thesis using Suc.prems by simp
  next
    case False
    then obtain t where t: "iteration addFct costFct s = Inr t" "passes n addFct costFct t = Inr s'"
      using Suc.prems(1) by (cases "iteration addFct costFct s") auto
    have "I t" using assms(3) [OF Suc.prems(2) False t(1)] .
    then show ?thesis using Suc.IH t(2) by blast
  qed
qed

section \<open>The effect of one pass, and how a call ends\<close>

lemma set_insertInStack [simp]: "set (insertInStack elt stk) = insert elt (set stk)"
  by (auto simp: insertInStack_def)

lemma set_after_sibling:
  "set (after_sibling stk1 item c rest j) \<subseteq> insert (sibling item c rest j) (set stk1)"
  by (auto simp: after_sibling_def)

lemma set_after_sibling_eq:
  "set (after_sibling stk1 item c rest j) =
     set stk1 \<union> (if \<exists>k<length c. k \<noteq> j \<and> c ! k \<noteq> None then {sibling item c rest j} else {})"
  by (auto simp: after_sibling_def)

lemma iteration_stack:
  assumes "iteration addFct costFct s = Inr s'" and "stack s \<noteq> []"
  obtains item stk1 c rest j e where
    "stack s = stk1 @ [item]" and "remaining item = c # rest" and
    "pickNext (index item) c = Inr j" and "j < length c" and "c ! j = Some e" and
    "stack s' = after_sibling stk1 item c rest j \<or>
     (rest \<noteq> [] \<and>
      stack s' = insertInStack (continuation addFct item rest e) (after_sibling stk1 item c rest j))"
proof -
  from assms obtain item stk1 c rest j e where
    a: "stack s = stk1 @ [item]" "remaining item = c # rest"
       "pickNext (index item) c = Inr j" "j < length c" "c ! j = Some e" and
    fin: "rest = [] \<Longrightarrow> stack s' = after_sibling stk1 item c rest j" and
    cont: "rest \<noteq> [] \<Longrightarrow> stack s' = after_sibling stk1 item c rest j \<or>
             stack s' = insertInStack (continuation addFct item rest e) (after_sibling stk1 item c rest j)"
    by (rule iteration_Inr) (auto split: if_splits)
  have "stack s' = after_sibling stk1 item c rest j \<or>
     (rest \<noteq> [] \<and>
      stack s' = insertInStack (continuation addFct item rest e) (after_sibling stk1 item c rest j))"
    using fin cont by (cases "rest = []") auto
  then show thesis using that a by blast
qed

text \<open>
  Every item of the new stack was on the old stack, or is the sibling or the continuation
  of the popped item.
\<close>

lemma iteration_items:
  assumes "iteration addFct costFct s = Inr s'" and "stack s \<noteq> []"
  obtains item c rest j e where
    "item \<in> set (stack s)" and "remaining item = c # rest" and
    "pickNext (index item) c = Inr j" and "j < length c" and "c ! j = Some e" and
    "set (stack s') \<subseteq> set (stack s) \<union>
        {sibling item c rest j} \<union> (if rest = [] then {} else {continuation addFct item rest e})"
proof -
  from assms obtain item stk1 c rest j e where
    a: "stack s = stk1 @ [item]" "remaining item = c # rest"
       "pickNext (index item) c = Inr j" "j < length c" "c ! j = Some e" and
    b: "stack s' = after_sibling stk1 item c rest j \<or>
     (rest \<noteq> [] \<and>
      stack s' = insertInStack (continuation addFct item rest e) (after_sibling stk1 item c rest j))"
    by (rule iteration_stack)
  have sub: "set (stack s') \<subseteq> set (stack s) \<union>
        {sibling item c rest j} \<union> (if rest = [] then {} else {continuation addFct item rest e})"
    using b a(1) set_after_sibling [of stk1 item c rest j] by auto
  have i: "item \<in> set (stack s)" using a(1) by simp
  show thesis by (rule that [OF i a(2) a(3) a(4) a(5) sub])
qed

lemma iteration_effect:
  assumes "iteration addFct costFct s = Inr s'" and "stack s \<noteq> []"
  obtains item stk1 c rest j e where
    "stack s = stk1 @ [item]" and "remaining item = c # rest" and
    "pickNext (index item) c = Inr j" and "j < length c" and "c ! j = Some e" and
    "set (stack s') \<subseteq> set stk1
        \<union> (if \<exists>k<length c. k \<noteq> j \<and> c ! k \<noteq> None then {sibling item c rest j} else {})
        \<union> (if rest = [] then {} else {continuation addFct item rest e})" and
    "set stk1 \<subseteq> set (stack s')" and
    "\<exists>k<length c. k \<noteq> j \<and> c ! k \<noteq> None \<Longrightarrow> sibling item c rest j \<in> set (stack s')" and
    "rest \<noteq> [] \<Longrightarrow> min_plan s' = min_plan s \<and> onPlan_calls s' = onPlan_calls s \<and>
        (continuation addFct item rest e \<in> set (stack s') \<or>
         (\<exists>m. min_plan s = Some m \<and> cost m \<le> costFct (addFct (partial item) e)))" and
    "rest = [] \<Longrightarrow>
        min_plan s' = (if (case min_plan s of None \<Rightarrow> True
                           | Some m \<Rightarrow> costFct (addFct (partial item) e) < cost m)
                       then Some \<lparr>best = addFct (partial item) e, cost = costFct (addFct (partial item) e)\<rparr>
                       else min_plan s) \<and>
        onPlan_calls s' = onPlan_calls s
           @ [(addFct (partial item) e, costFct (addFct (partial item) e), map_option cost (min_plan s))]"
proof -
  from assms obtain item stk1 c rest j e where
    a: "stack s = stk1 @ [item]" "remaining item = c # rest"
       "pickNext (index item) c = Inr j" "j < length c" "c ! j = Some e" and
    fin: "rest = [] \<Longrightarrow>
       s' = \<lparr>stack = after_sibling stk1 item c rest j,
             min_plan = (if (case min_plan s of None \<Rightarrow> True
                              | Some m \<Rightarrow> costFct (addFct (partial item) e) < cost m)
                         then Some \<lparr>best = addFct (partial item) e, cost = costFct (addFct (partial item) e)\<rparr>
                         else min_plan s),
             onPlan_calls = onPlan_calls s
                @ [(addFct (partial item) e, costFct (addFct (partial item) e), map_option cost (min_plan s))]\<rparr>" and
    cont: "rest \<noteq> [] \<Longrightarrow>
       s' = (if (case min_plan s of None \<Rightarrow> False | Some m \<Rightarrow> costFct (addFct (partial item) e) \<ge> cost m)
             then s\<lparr>stack := after_sibling stk1 item c rest j\<rparr>
             else s\<lparr>stack := insertInStack (continuation addFct item rest e) (after_sibling stk1 item c rest j)\<rparr>)"
    by (rule iteration_Inr) (rule that)
  define others where "others \<longleftrightarrow> (\<exists>k<length c. k \<noteq> j \<and> c ! k \<noteq> None)"
  let ?sib = "if others then {sibling item c rest j} else {}"
  note sas = set_after_sibling_eq [of stk1 item c rest j, folded others_def]
  have stk: "stack s' = after_sibling stk1 item c rest j \<or>
     (rest \<noteq> [] \<and>
      stack s' = insertInStack (continuation addFct item rest e) (after_sibling stk1 item c rest j))"
    using fin cont by (cases "rest = []") (auto split: if_splits)
  have sets: "set (stack s') = set stk1 \<union> ?sib \<or>
     (rest \<noteq> [] \<and> set (stack s') = insert (continuation addFct item rest e) (set stk1 \<union> ?sib))"
    using stk sas by auto
  have 1: "set (stack s') \<subseteq> set stk1 \<union> ?sib
        \<union> (if rest = [] then {} else {continuation addFct item rest e})"
    using sets by auto
  have 2: "set stk1 \<subseteq> set (stack s')"
    using sets by auto
  have 3: "sibling item c rest j \<in> set (stack s')" if "others"
    using sets that by auto
  have 4: "min_plan s' = min_plan s \<and> onPlan_calls s' = onPlan_calls s \<and>
        (continuation addFct item rest e \<in> set (stack s') \<or>
         (\<exists>m. min_plan s = Some m \<and> cost m \<le> costFct (addFct (partial item) e)))" if "rest \<noteq> []"
    using cont [OF that] by (cases "min_plan s") (auto split: if_splits)
  have 5: "min_plan s' = (if (case min_plan s of None \<Rightarrow> True
                           | Some m \<Rightarrow> costFct (addFct (partial item) e) < cost m)
                       then Some \<lparr>best = addFct (partial item) e, cost = costFct (addFct (partial item) e)\<rparr>
                       else min_plan s) \<and>
        onPlan_calls s' = onPlan_calls s
           @ [(addFct (partial item) e, costFct (addFct (partial item) e), map_option cost (min_plan s))]"
    if "rest = []"
    using fin [OF that] by simp
  show thesis by (rule that [OF a 1 [unfolded others_def] 2 3 [unfolded others_def] 4 5])
qed

text \<open>
  A call of the loop from a state satisfying an invariant of the loop body either ends
  with an empty stack, in a state satisfying the invariant, or fails in a pass that
  started in such a state.
\<close>

lemma loop_cases:
  assumes "I s"
    and "\<And>t t'. I t \<Longrightarrow> stack t \<noteq> [] \<Longrightarrow> iteration addFct costFct t = Inr t' \<Longrightarrow> I t'"
  shows "(\<exists>s'. loop addFct costFct s = Inr s' \<and> I s' \<and> stack s' = []) \<or>
         (\<exists>t err. loop addFct costFct s = Inl err \<and> I t \<and> stack t \<noteq> [] \<and>
                   iteration addFct costFct t = Inl err)"
  using assms
proof (induction addFct costFct s rule: loop.induct)
  case (1 addFct costFct s)
  show ?case
  proof (cases "stack s = []")
    case True
    then show ?thesis using "1.prems"(1) by (simp add: loop.simps [of _ _ s])
  next
    case False
    show ?thesis
    proof (cases "iteration addFct costFct s")
      case (Inl err)
      then have "loop addFct costFct s = Inl err" using False by (simp add: loop.simps [of _ _ s])
      then show ?thesis using Inl False "1.prems"(1) by blast
    next
      case (Inr t)
      have eq: "loop addFct costFct s = loop addFct costFct t"
        using Inr False by (simp add: loop.simps [of _ _ s])
      have "I t" using "1.prems"(2) [OF "1.prems"(1) False Inr] .
      then show ?thesis using "1.IH" [OF False Inr] "1.prems"(2) unfolding eq by blast
    qed
  qed
qed

section \<open>The stack-ordering policy\<close>

text \<open>In the array, the work items without an index come first, then those with one.\<close>

definition unindexed_first :: "('p, 'e) Partial list \<Rightarrow> bool" where
  "unindexed_first stk =
     (\<exists>us ixs. stk = us @ ixs \<and> (\<forall>u\<in>set us. index u = None) \<and> (\<forall>i\<in>set ixs. index i \<noteq> None))"

lemma unindexed_firstI:
  "stk = us @ ixs \<Longrightarrow> \<forall>u\<in>set us. index u = None \<Longrightarrow> \<forall>i\<in>set ixs. index i \<noteq> None
   \<Longrightarrow> unindexed_first stk"
  unfolding unindexed_first_def by (intro exI conjI)

lemma unindexed_first_insertInStack:
  assumes "unindexed_first stk"
  shows "unindexed_first (insertInStack elt stk)"
proof -
  from assms obtain us ixs where
    s: "stk = us @ ixs" "\<forall>u\<in>set us. index u = None" "\<forall>i\<in>set ixs. index i \<noteq> None"
    unfolding unindexed_first_def by blast
  show ?thesis
  proof (cases "index elt = None")
    case True
    then have "insertInStack elt stk = (elt # us) @ ixs" "\<forall>u\<in>set (elt # us). index u = None"
      using s by (simp_all add: insertInStack_def)
    then show ?thesis using s(3) by (rule unindexed_firstI)
  next
    case False
    then have "insertInStack elt stk = us @ (ixs @ [elt])" "\<forall>i\<in>set (ixs @ [elt]). index i \<noteq> None"
      using s by (simp_all add: insertInStack_def)
    then show ?thesis using s(2) by (intro unindexed_firstI [of _ us "ixs @ [elt]"])
  qed
qed

lemma unindexed_first_butlast:
  assumes "unindexed_first (stk @ [item])"
  shows "unindexed_first stk"
proof -
  from assms obtain us ixs where
    s: "stk @ [item] = us @ ixs" "\<forall>u\<in>set us. index u = None" "\<forall>i\<in>set ixs. index i \<noteq> None"
    unfolding unindexed_first_def by blast
  show ?thesis
  proof (cases "ixs = []")
    case True
    then have "\<forall>u\<in>set stk. index u = None" using s by auto
    then show ?thesis by (intro unindexed_firstI [of _ stk "[]"]) simp_all
  next
    case False
    then have "butlast (stk @ [item]) = us @ butlast ixs" using s(1) by (simp add: butlast_append)
    then have "stk = us @ butlast ixs" by simp
    moreover have "\<forall>i\<in>set (butlast ixs). index i \<noteq> None" using s(3) by (auto dest: in_set_butlastD)
    ultimately show ?thesis using s(2) by (intro unindexed_firstI [of _ us "butlast ixs"])
  qed
qed

lemma unindexed_first_last:
  assumes "unindexed_first stk" and "stk \<noteq> []" and "index (last stk) = None"
  shows "\<forall>it\<in>set stk. index it = None"
proof -
  from assms(1) obtain us ixs where
    s: "stk = us @ ixs" "\<forall>u\<in>set us. index u = None" "\<forall>i\<in>set ixs. index i \<noteq> None"
    unfolding unindexed_first_def by blast
  have "ixs = []"
  proof (rule ccontr)
    assume "ixs \<noteq> []"
    then have "last stk \<in> set ixs" using s(1) by simp
    then show False using s(3) assms(3) by blast
  qed
  then show ?thesis using s by simp
qed

lemma unindexed_first_iteration:
  assumes "unindexed_first (stack s)" and "stack s \<noteq> []" and "iteration addFct costFct s = Inr s'"
  shows "unindexed_first (stack s')"
proof -
  from assms(3,2) obtain item stk1 c rest j e where
    st: "stack s = stk1 @ [item]" and
    cases: "stack s' = after_sibling stk1 item c rest j \<or>
            (rest \<noteq> [] \<and>
             stack s' = insertInStack (continuation addFct item rest e) (after_sibling stk1 item c rest j))"
    by (rule iteration_stack)
  have "unindexed_first stk1" using assms(1) unindexed_first_butlast unfolding st by blast
  then have a: "unindexed_first (after_sibling stk1 item c rest j)"
    by (simp add: after_sibling_def unindexed_first_insertInStack)
  from cases show ?thesis
  proof
    assume "stack s' = after_sibling stk1 item c rest j"
    then show ?thesis using a by simp
  next
    assume "rest \<noteq> [] \<and>
             stack s' = insertInStack (continuation addFct item rest e) (after_sibling stk1 item c rest j)"
    then show ?thesis using unindexed_first_insertInStack [OF a] by simp
  qed
qed

lemma unindexed_first_initial: "unindexed_first (stack (initial_state initial toAdd))"
proof -
  let ?r = "\<lparr>partial = initial, remaining = toAdd, isRoot = True, index = Some 0\<rparr>"
  show ?thesis
    by (intro unindexed_firstI [of _ "[]" "[?r]"]) (simp_all add: initial_state_def)
qed

lemma insertInStack_around:
  assumes "\<forall>u\<in>set f. index u = None" and "\<forall>i\<in>set b. index i \<noteq> None"
  shows "\<exists>f' b'. insertInStack elt (f @ mid @ b) = f' @ mid @ b' \<and>
           (\<forall>u\<in>set f'. index u = None) \<and> (\<forall>i\<in>set b'. index i \<noteq> None) \<and>
           length f' + length b' = Suc (length f + length b)"
proof (cases "index elt = None")
  case True
  then have "insertInStack elt (f @ mid @ b) = (elt # f) @ mid @ b \<and>
      (\<forall>u\<in>set (elt # f). index u = None) \<and> (\<forall>i\<in>set b. index i \<noteq> None) \<and>
      length (elt # f) + length b = Suc (length f + length b)"
    using assms by (simp add: insertInStack_def)
  then show ?thesis by blast
next
  case False
  then have "insertInStack elt (f @ mid @ b) = f @ mid @ (b @ [elt]) \<and>
      (\<forall>u\<in>set f. index u = None) \<and> (\<forall>i\<in>set (b @ [elt]). index i \<noteq> None) \<and>
      length f + length (b @ [elt]) = Suc (length f + length b)"
    using assms by (simp add: insertInStack_def)
  then show ?thesis by blast
qed

text \<open>
  A pass takes the last item off the array and puts at most two new ones on it: those
  without an index at the front, those with one at the end.
\<close>

lemma iteration_pop:
  assumes "iteration addFct costFct s = Inr s'" and "stack s \<noteq> []"
  shows "\<exists>front back. stack s' = front @ butlast (stack s) @ back \<and>
           (\<forall>u\<in>set front. index u = None) \<and> (\<forall>i\<in>set back. index i \<noteq> None) \<and>
           length front + length back \<le> 2"
proof -
  from assms obtain item stk1 c rest j e where
    st: "stack s = stk1 @ [item]" and "remaining item = c # rest" and
    "pickNext (index item) c = Inr j" and "j < length c" and "c ! j = Some e" and
    new: "stack s' = after_sibling stk1 item c rest j \<or>
     (rest \<noteq> [] \<and>
      stack s' = insertInStack (continuation addFct item rest e) (after_sibling stk1 item c rest j))"
    by (rule iteration_stack)
  have bl: "butlast (stack s) = stk1" using st by simp
  have "\<exists>f b. after_sibling stk1 item c rest j = f @ stk1 @ b \<and>
           (\<forall>u\<in>set f. index u = None) \<and> (\<forall>i\<in>set b. index i \<noteq> None) \<and>
           length f + length b \<le> 1"
  proof (cases "\<exists>k<length c. k \<noteq> j \<and> c ! k \<noteq> None")
    case True
    then have "after_sibling stk1 item c rest j = insertInStack (sibling item c rest j) ([] @ stk1 @ [])"
      unfolding after_sibling_def by (simp only: if_True append_Nil append_Nil2)
    moreover from insertInStack_around [of "[]" "[]" "sibling item c rest j" stk1]
    obtain f b where "insertInStack (sibling item c rest j) ([] @ stk1 @ []) = f @ stk1 @ b"
      "\<forall>u\<in>set f. index u = None" "\<forall>i\<in>set b. index i \<noteq> None" "length f + length b = 1"
      by auto
    ultimately show ?thesis by (intro exI [of _ f] exI [of _ b]) simp
  next
    case False
    then have "after_sibling stk1 item c rest j = [] @ stk1 @ []"
      unfolding after_sibling_def by (simp only: if_False append_Nil append_Nil2)
    then show ?thesis by (intro exI [of _ "[]"]) simp
  qed
  then obtain f b where fb: "after_sibling stk1 item c rest j = f @ stk1 @ b"
    "\<forall>u\<in>set f. index u = None" "\<forall>i\<in>set b. index i \<noteq> None" "length f + length b \<le> 1"
    by blast
  from new show ?thesis
  proof
    assume "stack s' = after_sibling stk1 item c rest j"
    then show ?thesis unfolding bl using fb by (intro exI [of _ f] exI [of _ b]) simp
  next
    assume "rest \<noteq> [] \<and>
      stack s' = insertInStack (continuation addFct item rest e) (after_sibling stk1 item c rest j)"
    then have "stack s' = insertInStack (continuation addFct item rest e) (f @ stk1 @ b)"
      using fb(1) by simp
    moreover from insertInStack_around [OF fb(2,3), of "continuation addFct item rest e" stk1]
    obtain f' b' where "insertInStack (continuation addFct item rest e) (f @ stk1 @ b) = f' @ stk1 @ b'"
      "\<forall>u\<in>set f'. index u = None" "\<forall>i\<in>set b'. index i \<noteq> None"
      "length f' + length b' = Suc (length f + length b)"
      by blast
    ultimately show ?thesis unfolding bl using fb(4) by (intro exI [of _ f'] exI [of _ b']) simp
  qed
qed

lemma unindexed_first_indexed_last:
  assumes "unindexed_first stk" and "it \<in> set stk" and "index it \<noteq> None"
  shows "index (last stk) \<noteq> None"
proof
  assume "index (last stk) = None"
  moreover have "stk \<noteq> []" using assms(2) by auto
  ultimately have "\<forall>x\<in>set stk. index x = None" using unindexed_first_last [OF assms(1)] by blast
  then show False using assms(2,3) by auto
qed

text \<open>
  C7. \<open>insertInStack\<close> puts an item with an index at the end of the array, where \<open>pop\<close>
  takes from, and an item without one at the front. In every state of a run the array is
  made of the items without an index followed by the items with one. So while an item
  with an index is on the stack, the item to be popped has an index; the item to be
  popped has none only when no item of the stack has one. A pass removes the last item of
  the array and nothing else, and adds its new items at the two ends in the same way.
\<close>

theorem indexed_items_popped_first:
  "(index elt \<noteq> None \<longrightarrow> insertInStack elt stk = stk @ [elt]) \<and>
   (index elt = None \<longrightarrow> insertInStack elt stk = elt # stk) \<and>
   (passes n addFct costFct (initial_state initial toAdd) = Inr s \<longrightarrow>
      (\<exists>us ixs. stack s = us @ ixs \<and> (\<forall>u\<in>set us. index u = None) \<and>
                (\<forall>i\<in>set ixs. index i \<noteq> None)) \<and>
      ((\<exists>it\<in>set (stack s). index it \<noteq> None) \<longrightarrow> index (last (stack s)) \<noteq> None) \<and>
      (stack s \<noteq> [] \<and> index (last (stack s)) = None \<longrightarrow>
         (\<forall>it\<in>set (stack s). index it = None)) \<and>
      (stack s \<noteq> [] \<and> iteration addFct costFct s = Inr s' \<longrightarrow>
         (\<exists>front back. stack s' = front @ butlast (stack s) @ back \<and>
              (\<forall>u\<in>set front. index u = None) \<and> (\<forall>i\<in>set back. index i \<noteq> None) \<and>
              length front + length back \<le> 2)))"
proof (intro conjI impI)
  assume run: "passes n addFct costFct (initial_state initial toAdd) = Inr s"
  have uf: "unindexed_first (stack s)"
  proof (rule passes_invariant [where I = "\<lambda>s. unindexed_first (stack s)", OF run])
    show "unindexed_first (stack (initial_state initial toAdd))" by (rule unindexed_first_initial)
  qed (rule unindexed_first_iteration)
  show "\<exists>us ixs. stack s = us @ ixs \<and> (\<forall>u\<in>set us. index u = None) \<and>
                (\<forall>i\<in>set ixs. index i \<noteq> None)"
    using uf unfolding unindexed_first_def .
  show "index (last (stack s)) \<noteq> None" if "\<exists>it\<in>set (stack s). index it \<noteq> None"
    using that unindexed_first_indexed_last [OF uf] by auto
  show "\<forall>it\<in>set (stack s). index it = None"
    if "stack s \<noteq> [] \<and> index (last (stack s)) = None"
    using that unindexed_first_last [OF uf] by simp
  show "\<exists>front back. stack s' = front @ butlast (stack s) @ back \<and>
              (\<forall>u\<in>set front. index u = None) \<and> (\<forall>i\<in>set back. index i \<noteq> None) \<and>
              length front + length back \<le> 2"
    if "stack s \<noteq> [] \<and> iteration addFct costFct s = Inr s'"
    using that iteration_pop [of addFct costFct s s'] by simp
qed (simp_all add: insertInStack_def)

text \<open>
  Two pieces of two candidates each, where the second candidate of the first piece is the
  cheaper one: after four passes two items without an index are left on the stack.
\<close>

definition two_by_two :: "(string \<times> int) Choices list" where
  "two_by_two = [[Some (''a1'', 5), Some (''a2'', 1)], [Some (''b1'', 1), Some (''b2'', 1)]]"

theorem indexed_items_popped_first_witness:
  "(insertInStack \<lparr>partial = (0::nat), remaining = [] :: nat Choices list, isRoot = False, index = Some 0\<rparr>
      [\<lparr>partial = 0, remaining = [], isRoot = False, index = None\<rparr>]
     = [\<lparr>partial = 0, remaining = [], isRoot = False, index = None\<rparr>,
        \<lparr>partial = 0, remaining = [], isRoot = False, index = Some 0\<rparr>]) \<and>
   (insertInStack \<lparr>partial = (0::nat), remaining = [] :: nat Choices list, isRoot = False, index = None\<rparr>
      [\<lparr>partial = 0, remaining = [], isRoot = False, index = Some 0\<rparr>]
     = [\<lparr>partial = 0, remaining = [], isRoot = False, index = None\<rparr>,
        \<lparr>partial = 0, remaining = [], isRoot = False, index = Some 0\<rparr>]) \<and>
   (\<exists>s. passes 2 add_candidate additive_cost (initial_state [] three_pieces) = Inr s \<and>
        map index (stack s) = [None, Some 1, Some 0] \<and>
        index (last (stack s)) \<noteq> None) \<and>
   (\<exists>t. passes 4 add_candidate additive_cost (initial_state [] two_by_two) = Inr t \<and>
        length (stack t) = 2 \<and> index (last (stack t)) = None \<and>
        list_all (\<lambda>it. index it = None) (stack t)) \<and>
   (\<exists>u u' front back.
        passes 1 add_candidate additive_cost (initial_state [] three_pieces) = Inr u \<and>
        iteration add_candidate additive_cost u = Inr u' \<and>
        map index (stack u) = [Some 1, Some 0] \<and>
        map index (stack u') = [None, Some 1, Some 0] \<and>
        stack u' = front @ butlast (stack u) @ back \<and>
        list_all (\<lambda>it. index it = None) front \<and> list_all (\<lambda>it. index it \<noteq> None) back)"
proof -
  let ?x = "\<lparr>partial = (0::nat), remaining = [] :: nat Choices list, isRoot = False, index = Some 0\<rparr>"
  let ?y = "\<lparr>partial = (0::nat), remaining = [] :: nat Choices list, isRoot = False, index = None\<rparr>"
  have push: "insertInStack ?x [?y] = [?y, ?x]"
    using indexed_items_popped_first [of ?x "[?y]", THEN conjunct1] by simp
  have unshift: "insertInStack ?y [?x] = [?y, ?x]"
    using indexed_items_popped_first [of ?y "[?x]", THEN conjunct2, THEN conjunct1] by simp
  have "case passes 2 add_candidate additive_cost (initial_state [] three_pieces) of
          Inl err \<Rightarrow> False
        | Inr s \<Rightarrow> map index (stack s) = [None, Some 1, Some 0]"
    by code_simp
  then obtain s where s: "passes 2 add_candidate additive_cost (initial_state [] three_pieces) = Inr s"
      "map index (stack s) = [None, Some 1, Some 0]"
    by (auto split: sum.splits)
  have "Some 0 \<in> set (map index (stack s))" unfolding s(2) by simp
  then obtain x where x: "x \<in> set (stack s)" "index x = Some 0" by auto
  then have "index x \<noteq> None" by simp
  with x(1) have "\<exists>it\<in>set (stack s). index it \<noteq> None" ..
  note run2 = indexed_items_popped_first
    [of _ _ 2 add_candidate additive_cost "[]" three_pieces s,
      THEN conjunct2, THEN conjunct2, THEN mp, OF s(1)]
  from this [THEN conjunct2, THEN conjunct1, THEN mp, OF \<open>\<exists>it\<in>set (stack s). index it \<noteq> None\<close>]
  have "index (last (stack s)) \<noteq> None" .
  then have first: "\<exists>s. passes 2 add_candidate additive_cost (initial_state [] three_pieces) = Inr s \<and>
        map index (stack s) = [None, Some 1, Some 0] \<and> index (last (stack s)) \<noteq> None"
    using s by (intro exI [of _ s]) simp
  have "case passes 4 add_candidate additive_cost (initial_state [] two_by_two) of
          Inl err \<Rightarrow> False
        | Inr t \<Rightarrow> length (stack t) = 2 \<and> index (last (stack t)) = None"
    by code_simp
  then obtain t where t: "passes 4 add_candidate additive_cost (initial_state [] two_by_two) = Inr t"
      "length (stack t) = 2" "index (last (stack t)) = None"
    by (auto split: sum.splits)
  have "stack t \<noteq> [] \<and> index (last (stack t)) = None" using t(2,3) by auto
  note run4 = indexed_items_popped_first
    [of _ _ 4 add_candidate additive_cost "[]" two_by_two t,
      THEN conjunct2, THEN conjunct2, THEN mp, OF t(1)]
  from this [THEN conjunct2, THEN conjunct2, THEN conjunct1, THEN mp,
      OF \<open>stack t \<noteq> [] \<and> index (last (stack t)) = None\<close>]
  have "\<forall>it\<in>set (stack t). index it = None" .
  then have second: "\<exists>t. passes 4 add_candidate additive_cost (initial_state [] two_by_two) = Inr t \<and>
        length (stack t) = 2 \<and> index (last (stack t)) = None \<and>
        list_all (\<lambda>it. index it = None) (stack t)"
    using t by (intro exI [of _ t]) (simp add: list_all_iff)
  have "case passes 1 add_candidate additive_cost (initial_state [] three_pieces) of
          Inl err \<Rightarrow> False
        | Inr u \<Rightarrow> map index (stack u) = [Some 1, Some 0] \<and>
            (case iteration add_candidate additive_cost u of
               Inl err \<Rightarrow> False
             | Inr u' \<Rightarrow> map index (stack u') = [None, Some 1, Some 0])"
    by code_simp
  then obtain u u' where u: "passes 1 add_candidate additive_cost (initial_state [] three_pieces) = Inr u"
      "map index (stack u) = [Some 1, Some 0]"
      "iteration add_candidate additive_cost u = Inr u'"
      "map index (stack u') = [None, Some 1, Some 0]"
    by (auto split: sum.splits)
  have "stack u \<noteq> [] \<and> iteration add_candidate additive_cost u = Inr u'" using u(2,3) by auto
  note run1 = indexed_items_popped_first
    [of _ _ 1 add_candidate additive_cost "[]" three_pieces u u',
      THEN conjunct2, THEN conjunct2, THEN mp, OF u(1)]
  from this [THEN conjunct2, THEN conjunct2, THEN conjunct2, THEN mp,
      OF \<open>stack u \<noteq> [] \<and> iteration add_candidate additive_cost u = Inr u'\<close>]
  obtain fr bk where fb: "stack u' = fr @ butlast (stack u) @ bk"
      "\<forall>it\<in>set fr. index it = None" "\<forall>it\<in>set bk. index it \<noteq> None"
    by blast
  have third: "\<exists>u u' front back.
        passes 1 add_candidate additive_cost (initial_state [] three_pieces) = Inr u \<and>
        iteration add_candidate additive_cost u = Inr u' \<and>
        map index (stack u) = [Some 1, Some 0] \<and>
        map index (stack u') = [None, Some 1, Some 0] \<and>
        stack u' = front @ butlast (stack u) @ back \<and>
        list_all (\<lambda>it. index it = None) front \<and> list_all (\<lambda>it. index it \<noteq> None) back"
    using u fb by (intro exI [of _ u] exI [of _ u'] exI [of _ fr] exI [of _ bk])
      (simp add: list_all_iff)
  show ?thesis using push unshift first second third by (intro conjI)
qed

section \<open>Complete plans, and what a work item has decided\<close>

text \<open>
  The candidates of a choice set are the contents of its populated slots. The reference
  for the search: every complete plan, by picking one candidate in each choice set (the
  full cartesian product) and adding them in order to the initial plan.
\<close>

definition candidates :: "'e Choices \<Rightarrow> 'e list" where
  "candidates c = concat (map (\<lambda>x. case x of None \<Rightarrow> [] | Some e \<Rightarrow> [e]) c)"

definition all_plans :: "('p \<Rightarrow> 'e \<Rightarrow> 'p) \<Rightarrow> 'p \<Rightarrow> 'e list list \<Rightarrow> 'p list" where
  "all_plans addFct initial choices = map (foldl addFct initial) (product_lists choices)"

definition complete_plans :: "('p \<Rightarrow> 'e \<Rightarrow> 'p) \<Rightarrow> 'p \<Rightarrow> 'e Choices list \<Rightarrow> 'p set" where
  "complete_plans addFct initial toAdd = set (all_plans addFct initial (map candidates toAdd))"

lemma set_candidates: "set (candidates c) = {e. Some e \<in> set c}"
  by (induction c) (auto simp: candidates_def split: option.splits)

lemma product_lists_all2:
  "es \<in> set (product_lists xss) \<longleftrightarrow> list_all2 (\<lambda>e xs. e \<in> set xs) es xss"
proof (induction xss arbitrary: es)
  case Nil
  then show ?case by simp
next
  case (Cons xs xss)
  have "es \<in> set (product_lists (xs # xss)) \<longleftrightarrow>
          (\<exists>x ys. es = x # ys \<and> x \<in> set xs \<and> ys \<in> set (product_lists xss))"
    by auto
  also have "\<dots> \<longleftrightarrow> (\<exists>x ys. es = x # ys \<and> x \<in> set xs \<and> list_all2 (\<lambda>e xs. e \<in> set xs) ys xss)"
    by (simp only: Cons.IH)
  also have "\<dots> \<longleftrightarrow> list_all2 (\<lambda>e xs. e \<in> set xs) es (xs # xss)"
    by (simp only: list_all2_Cons2)
  finally show ?case .
qed

lemma complete_plans_iff:
  "p \<in> complete_plans addFct initial toAdd \<longleftrightarrow>
     (\<exists>es. list_all2 (\<lambda>e c. Some e \<in> set c) es toAdd \<and> p = foldl addFct initial es)"
proof -
  have "list_all2 (\<lambda>e xs. e \<in> set xs) es (map candidates toAdd)
          = list_all2 (\<lambda>e c. Some e \<in> set c) es toAdd" for es
    by (simp add: list_all2_map2 set_candidates)
  then have "es \<in> set (product_lists (map candidates toAdd))
          \<longleftrightarrow> list_all2 (\<lambda>e c. Some e \<in> set c) es toAdd" for es
    by (simp only: product_lists_all2)
  then have "foldl addFct initial ` set (product_lists (map candidates toAdd))
          = {foldl addFct initial es | es. list_all2 (\<lambda>e c. Some e \<in> set c) es toAdd}"
    by (auto simp: image_iff)
  then show ?thesis
    unfolding complete_plans_def all_plans_def by auto
qed

text \<open>
  A work item that has decided the first \<open>k\<close> pieces: its plan is the initial plan with
  one candidate of each of these pieces added, in order, and its remaining choice sets
  are those of the other pieces, with some slots cleared.
\<close>

definition folded ::
  "('p \<Rightarrow> 'e \<Rightarrow> 'p) \<Rightarrow> 'p \<Rightarrow> 'e Choices list \<Rightarrow> ('p, 'e) Partial \<Rightarrow> bool" where
  "folded addFct initial toAdd it =
     (\<exists>es. partial it = foldl addFct initial es \<and>
           list_all2 (\<lambda>e orig. Some e \<in> set orig) es (take (length es) toAdd) \<and>
           list_all2 (\<lambda>c orig. \<forall>x. Some x \<in> set c \<longrightarrow> Some x \<in> set orig)
             (remaining it) (drop (length es) toAdd))"

lemma folded_lengths:
  assumes "list_all2 P rem (drop k toAdd)" and "rem \<noteq> []"
  shows "k < length toAdd \<and> k + length rem = length toAdd"
proof -
  have "length rem = length toAdd - k" using assms(1) by (auto dest: list_all2_lengthD)
  moreover have "length rem > 0" using assms(2) by simp
  ultimately show ?thesis by simp
qed

lemma folded_successors:
  assumes "folded addFct initial toAdd item" and "remaining item = c # rest"
    and "j < length c" and "c ! j = Some e"
  shows "folded addFct initial toAdd (sibling item c rest j)"
    and "folded addFct initial toAdd (continuation addFct item rest e)"
proof -
  let ?P = "\<lambda>c orig. \<forall>x. Some x \<in> set c \<longrightarrow> Some x \<in> set orig"
  let ?Q = "\<lambda>e orig. Some e \<in> set orig"
  from assms(1) obtain es where
    es: "partial item = foldl addFct initial es"
        "list_all2 ?Q es (take (length es) toAdd)"
        "list_all2 ?P (remaining item) (drop (length es) toAdd)"
    unfolding folded_def by blast
  let ?k = "length es"
  have k: "?k < length toAdd" using folded_lengths [OF es(3)] assms(2) by simp
  have dr: "drop ?k toAdd = toAdd ! ?k # drop (Suc ?k) toAdd"
    using k by (simp add: Cons_nth_drop_Suc)
  have head: "?P c (toAdd ! ?k)" and tail: "list_all2 ?P rest (drop (Suc ?k) toAdd)"
    using es(3) unfolding assms(2) dr by simp_all
  have "?P (c[j := None]) (toAdd ! ?k)"
    using head set_update_subset_insert [of c j None] by auto
  then have "list_all2 ?P (remaining (sibling item c rest j)) (drop ?k toAdd)"
    unfolding dr using tail by (simp add: sibling_def)
  then show "folded addFct initial toAdd (sibling item c rest j)"
    unfolding folded_def using es(1,2) by (intro exI [of _ es]) (simp add: sibling_def)
  have "Some e \<in> set c" using assms(3,4) by (metis nth_mem)
  then have "Some e \<in> set (toAdd ! ?k)" using head by simp
  then have "list_all2 ?Q (es @ [e]) (take ?k toAdd @ [toAdd ! ?k])"
    using es(2) by (intro list_all2_appendI) simp_all
  then have "list_all2 ?Q (es @ [e]) (take (length (es @ [e])) toAdd)"
    using k by (simp add: take_Suc_conv_app_nth)
  moreover have "list_all2 ?P (remaining (continuation addFct item rest e)) (drop (length (es @ [e])) toAdd)"
    using tail by (simp add: continuation_def)
  moreover have "partial (continuation addFct item rest e) = foldl addFct initial (es @ [e])"
    using es(1) by (simp add: continuation_def)
  ultimately show "folded addFct initial toAdd (continuation addFct item rest e)"
    unfolding folded_def by (intro exI [of _ "es @ [e]"]) simp
qed

lemma folded_iteration:
  assumes "\<forall>it\<in>set (stack s). folded addFct initial toAdd it" and "stack s \<noteq> []"
    and "iteration addFct costFct s = Inr s'"
  shows "\<forall>it\<in>set (stack s'). folded addFct initial toAdd it"
proof -
  from assms(3,2) obtain item c rest j e where
    a: "item \<in> set (stack s)" "remaining item = c # rest" "pickNext (index item) c = Inr j"
       "j < length c" "c ! j = Some e" and
    sub: "set (stack s') \<subseteq> set (stack s) \<union>
        {sibling item c rest j} \<union> (if rest = [] then {} else {continuation addFct item rest e})"
    by (rule iteration_items)
  have "folded addFct initial toAdd item" using assms(1) a(1) by simp
  from folded_successors [OF this a(2,4,5)] show ?thesis
    using sub assms(1) by (auto split: if_splits)
qed

lemma folded_initial:
  "folded addFct initial toAdd \<lparr>partial = initial, remaining = toAdd, isRoot = r, index = i\<rparr>"
proof -
  have "list_all2 (\<lambda>c orig. \<forall>x. Some x \<in> set c \<longrightarrow> Some x \<in> set orig) toAdd toAdd"
    by (simp add: list_all2_conv_all_nth)
  then show ?thesis unfolding folded_def by (intro exI [of _ "[]"]) simp
qed

text \<open>A work item with nothing left to decide holds a complete plan.\<close>

lemma folded_complete:
  assumes "folded addFct initial toAdd it" and "remaining it = []"
  shows "partial it \<in> complete_plans addFct initial toAdd"
proof -
  from assms obtain es where
    es: "partial it = foldl addFct initial es"
        "list_all2 (\<lambda>e orig. Some e \<in> set orig) es (take (length es) toAdd)"
        "drop (length es) toAdd = []"
    unfolding folded_def by auto
  then have "list_all2 (\<lambda>e orig. Some e \<in> set orig) es toAdd" by simp
  then show ?thesis
    unfolding complete_plans_iff es(1) by (intro exI [of _ es]) simp
qed

text \<open>The plan a pass completes, from the last piece of a work item, is a complete plan.\<close>

lemma completed_plan:
  assumes "folded addFct initial toAdd item" and "remaining item = [c]"
    and "j < length c" and "c ! j = Some e"
  shows "addFct (partial item) e \<in> complete_plans addFct initial toAdd"
proof -
  have "folded addFct initial toAdd (continuation addFct item [] e)"
    by (rule folded_successors(2) [OF assms])
  from folded_complete [OF this] show ?thesis by (simp add: continuation_def)
qed

section \<open>The best-result state\<close>

lemma min_plan_iteration:
  assumes "iteration addFct costFct s = Inr s'" and "stack s \<noteq> []"
  shows "(\<forall>m. min_plan s = Some m \<longrightarrow>
            (\<exists>m'. min_plan s' = Some m' \<and> (m' = m \<or> cost m' < cost m)))"
    and "min_plan s' \<noteq> min_plan s \<longrightarrow>
            (\<exists>p. onPlan_calls s' = onPlan_calls s @ [(p, costFct p, map_option cost (min_plan s))] \<and>
                 min_plan s' = Some \<lparr>best = p, cost = costFct p\<rparr>)"
    and "\<forall>m p c prev. min_plan s = Some m \<and> onPlan_calls s' = onPlan_calls s @ [(p, c, prev)] \<and>
            c = cost m \<longrightarrow> min_plan s' = Some m"
    and "(min_plan s = None) = (onPlan_calls s = []) \<Longrightarrow> (min_plan s' = None) = (onPlan_calls s' = [])"
proof -
  from assms obtain item stk1 c rest j e where
    fin: "rest = [] \<Longrightarrow>
       s' = \<lparr>stack = after_sibling stk1 item c rest j,
             min_plan = (if (case min_plan s of None \<Rightarrow> True
                              | Some m \<Rightarrow> costFct (addFct (partial item) e) < cost m)
                         then Some \<lparr>best = addFct (partial item) e, cost = costFct (addFct (partial item) e)\<rparr>
                         else min_plan s),
             onPlan_calls = onPlan_calls s
                @ [(addFct (partial item) e, costFct (addFct (partial item) e), map_option cost (min_plan s))]\<rparr>" and
    cont: "rest \<noteq> [] \<Longrightarrow>
       s' = (if (case min_plan s of None \<Rightarrow> False | Some m \<Rightarrow> costFct (addFct (partial item) e) \<ge> cost m)
             then s\<lparr>stack := after_sibling stk1 item c rest j\<rparr>
             else s\<lparr>stack := insertInStack (continuation addFct item rest e) (after_sibling stk1 item c rest j)\<rparr>)"
    by (rule iteration_Inr) (rule that)
  have same: "rest \<noteq> [] \<Longrightarrow> min_plan s' = min_plan s \<and> onPlan_calls s' = onPlan_calls s"
    using cont by (auto split: if_splits)
  show "(\<forall>m. min_plan s = Some m \<longrightarrow>
            (\<exists>m'. min_plan s' = Some m' \<and> (m' = m \<or> cost m' < cost m)))"
    using fin same by (cases "rest = []") auto
  show "min_plan s' \<noteq> min_plan s \<longrightarrow>
            (\<exists>p. onPlan_calls s' = onPlan_calls s @ [(p, costFct p, map_option cost (min_plan s))] \<and>
                 min_plan s' = Some \<lparr>best = p, cost = costFct p\<rparr>)"
    using fin same by (cases "rest = []") (auto split: if_splits)
  show "\<forall>m p c prev. min_plan s = Some m \<and> onPlan_calls s' = onPlan_calls s @ [(p, c, prev)] \<and>
            c = cost m \<longrightarrow> min_plan s' = Some m"
    using fin same by (cases "rest = []") auto
  show "(min_plan s' = None) = (onPlan_calls s' = [])" if "(min_plan s = None) = (onPlan_calls s = [])"
    using fin same that by (cases "rest = []") auto
qed

text \<open>
  When every work item holds what it has decided, the plan a pass reports to \<open>onPlan\<close>,
  and makes the best plan if it is cheaper, is a complete plan.
\<close>

lemma complete_iteration:
  assumes "iteration addFct costFct s = Inr s'" and "stack s \<noteq> []"
    and "\<forall>it\<in>set (stack s). folded addFct initial toAdd it"
  shows "onPlan_calls s' = onPlan_calls s \<or>
         (\<exists>p. p \<in> complete_plans addFct initial toAdd \<and>
              onPlan_calls s' = onPlan_calls s @ [(p, costFct p, map_option cost (min_plan s))])"
    and "min_plan s' \<noteq> min_plan s \<longrightarrow>
         (\<exists>p. p \<in> complete_plans addFct initial toAdd \<and>
              onPlan_calls s' = onPlan_calls s @ [(p, costFct p, map_option cost (min_plan s))] \<and>
              min_plan s' = Some \<lparr>best = p, cost = costFct p\<rparr>)"
proof -
  from assms(1,2) obtain item stk1 c rest j e where
    st: "stack s = stk1 @ [item]" and rem: "remaining item = c # rest" and
    j: "j < length c" "c ! j = Some e" and
    unf: "rest \<noteq> [] \<Longrightarrow> min_plan s' = min_plan s \<and> onPlan_calls s' = onPlan_calls s \<and>
        (continuation addFct item rest e \<in> set (stack s') \<or>
         (\<exists>m. min_plan s = Some m \<and> cost m \<le> costFct (addFct (partial item) e)))" and
    fin: "rest = [] \<Longrightarrow>
        min_plan s' = (if (case min_plan s of None \<Rightarrow> True
                           | Some m \<Rightarrow> costFct (addFct (partial item) e) < cost m)
                       then Some \<lparr>best = addFct (partial item) e, cost = costFct (addFct (partial item) e)\<rparr>
                       else min_plan s) \<and>
        onPlan_calls s' = onPlan_calls s
           @ [(addFct (partial item) e, costFct (addFct (partial item) e), map_option cost (min_plan s))]"
    by (rule iteration_effect) blast
  let ?new = "addFct (partial item) e"
  have fold: "folded addFct initial toAdd item" using assms(3) st by simp
  have complete: "?new \<in> complete_plans addFct initial toAdd" if "rest = []"
    using completed_plan [OF fold _ j] rem that by simp
  show "onPlan_calls s' = onPlan_calls s \<or>
         (\<exists>p. p \<in> complete_plans addFct initial toAdd \<and>
              onPlan_calls s' = onPlan_calls s @ [(p, costFct p, map_option cost (min_plan s))])"
  proof (cases "rest = []")
    case True
    then show ?thesis using fin complete by (intro disjI2 exI [of _ ?new]) simp
  next
    case False
    then show ?thesis using unf by simp
  qed
  show "min_plan s' \<noteq> min_plan s \<longrightarrow>
         (\<exists>p. p \<in> complete_plans addFct initial toAdd \<and>
              onPlan_calls s' = onPlan_calls s @ [(p, costFct p, map_option cost (min_plan s))] \<and>
              min_plan s' = Some \<lparr>best = p, cost = costFct p\<rparr>)"
  proof (cases "rest = []")
    case True
    show ?thesis
    proof
      assume "min_plan s' \<noteq> min_plan s"
      then have "min_plan s' = Some \<lparr>best = ?new, cost = costFct ?new\<rparr>"
        using fin [OF True] by (auto split: if_splits)
      then show "\<exists>p. p \<in> complete_plans addFct initial toAdd \<and>
              onPlan_calls s' = onPlan_calls s @ [(p, costFct p, map_option cost (min_plan s))] \<and>
              min_plan s' = Some \<lparr>best = p, cost = costFct p\<rparr>"
        using fin [OF True] complete [OF True] by (intro exI [of _ ?new]) simp
    qed
  next
    case False
    then show ?thesis using unf by simp
  qed
qed

text \<open>
  What holds of the best plan and of the calls of \<open>onPlan\<close> in every state of a run.
\<close>

definition best_inv ::
  "('p \<Rightarrow> 'e \<Rightarrow> 'p) \<Rightarrow> ('p \<Rightarrow> 'c) \<Rightarrow> 'p \<Rightarrow> 'e Choices list \<Rightarrow> ('p, 'e, 'c) state \<Rightarrow> bool" where
  "best_inv addFct costFct initial toAdd s =
     ((\<forall>it\<in>set (stack s). folded addFct initial toAdd it) \<and>
      ((min_plan s = None) = (onPlan_calls s = [])) \<and>
      (\<forall>call\<in>set (onPlan_calls s).
          fst call \<in> complete_plans addFct initial toAdd \<and> fst (snd call) = costFct (fst call)) \<and>
      (\<forall>m. min_plan s = Some m \<longrightarrow>
          best m \<in> complete_plans addFct initial toAdd \<and> cost m = costFct (best m)))"

lemma best_inv_iteration:
  fixes s :: "('p, 'e, 'c::linorder) state"
  assumes inv: "best_inv addFct costFct initial toAdd s" and ne: "stack s \<noteq> []"
    and it: "iteration addFct costFct s = Inr s'"
  shows "best_inv addFct costFct initial toAdd s'"
proof -
  have fold: "\<forall>it\<in>set (stack s). folded addFct initial toAdd it"
    and none: "(min_plan s = None) = (onPlan_calls s = [])"
    and calls: "\<forall>call\<in>set (onPlan_calls s).
          fst call \<in> complete_plans addFct initial toAdd \<and> fst (snd call) = costFct (fst call)"
    and best: "\<forall>m. min_plan s = Some m \<longrightarrow>
          best m \<in> complete_plans addFct initial toAdd \<and> cost m = costFct (best m)"
    using inv unfolding best_inv_def by simp_all
  have 1: "\<forall>it\<in>set (stack s'). folded addFct initial toAdd it"
    by (rule folded_iteration [OF fold ne it])
  have 2: "(min_plan s' = None) = (onPlan_calls s' = [])"
    by (rule min_plan_iteration(4) [OF it ne none])
  have 3: "\<forall>call\<in>set (onPlan_calls s').
          fst call \<in> complete_plans addFct initial toAdd \<and> fst (snd call) = costFct (fst call)"
    using complete_iteration(1) [OF it ne fold] calls by auto
  have 4: "\<forall>m. min_plan s' = Some m \<longrightarrow>
          best m \<in> complete_plans addFct initial toAdd \<and> cost m = costFct (best m)"
  proof (cases "min_plan s' = min_plan s")
    case True
    then show ?thesis using best by simp
  next
    case False
    then show ?thesis using complete_iteration(2) [OF it ne fold] by auto
  qed
  show ?thesis unfolding best_inv_def using 1 2 3 4 by simp
qed

lemma best_inv_initial: "best_inv addFct costFct initial toAdd (initial_state initial toAdd)"
  unfolding best_inv_def initial_state_def by (simp add: folded_initial)

text \<open>
  C4. In every state of a run, there is a best plan exactly when \<open>onPlan\<close> has been called;
  every call of \<open>onPlan\<close> was for a complete plan, with its cost; and the best plan is a
  complete plan, with its cost. So the best plan is absent until the cost of the first
  complete plan is computed. A pass through the loop never removes the best plan; it
  keeps it or replaces it by the complete plan of that pass, and then that plan's cost is
  strictly lower. A complete plan whose cost equals the best cost leaves the best plan as
  it is.
\<close>

theorem best_plan_only_improves:
  fixes costFct :: "'p \<Rightarrow> 'c::linorder"
  assumes "passes n addFct costFct (initial_state initial toAdd) = Inr s"
  shows "((min_plan s = None) = (onPlan_calls s = [])) \<and>
         (\<forall>call\<in>set (onPlan_calls s).
            fst call \<in> complete_plans addFct initial toAdd \<and> fst (snd call) = costFct (fst call)) \<and>
         (\<forall>m. min_plan s = Some m \<longrightarrow>
            best m \<in> complete_plans addFct initial toAdd \<and> cost m = costFct (best m)) \<and>
         (stack s \<noteq> [] \<and> iteration addFct costFct s = Inr s' \<longrightarrow>
            (\<forall>m. min_plan s = Some m \<longrightarrow>
               (\<exists>m'. min_plan s' = Some m' \<and> (m' = m \<or> cost m' < cost m))) \<and>
            (min_plan s' \<noteq> min_plan s \<longrightarrow>
               (\<exists>p. p \<in> complete_plans addFct initial toAdd \<and>
                    onPlan_calls s' = onPlan_calls s @ [(p, costFct p, map_option cost (min_plan s))] \<and>
                    min_plan s' = Some \<lparr>best = p, cost = costFct p\<rparr>)) \<and>
            (\<forall>m p c prev. min_plan s = Some m \<and>
                 onPlan_calls s' = onPlan_calls s @ [(p, c, prev)] \<and> c = cost m
               \<longrightarrow> min_plan s' = Some m))"
proof -
  have inv: "best_inv addFct costFct initial toAdd s"
  proof (rule passes_invariant [where I = "best_inv addFct costFct initial toAdd", OF assms])
    show "best_inv addFct costFct initial toAdd (initial_state initial toAdd)"
      by (rule best_inv_initial)
  qed (rule best_inv_iteration)
  then have fold: "\<forall>it\<in>set (stack s). folded addFct initial toAdd it"
    unfolding best_inv_def by simp
  have step: "(\<forall>m. min_plan s = Some m \<longrightarrow>
               (\<exists>m'. min_plan s' = Some m' \<and> (m' = m \<or> cost m' < cost m))) \<and>
            (min_plan s' \<noteq> min_plan s \<longrightarrow>
               (\<exists>p. p \<in> complete_plans addFct initial toAdd \<and>
                    onPlan_calls s' = onPlan_calls s @ [(p, costFct p, map_option cost (min_plan s))] \<and>
                    min_plan s' = Some \<lparr>best = p, cost = costFct p\<rparr>)) \<and>
            (\<forall>m p c prev. min_plan s = Some m \<and>
                 onPlan_calls s' = onPlan_calls s @ [(p, c, prev)] \<and> c = cost m
               \<longrightarrow> min_plan s' = Some m)"
    if "stack s \<noteq> [] \<and> iteration addFct costFct s = Inr s'"
  proof -
    from that have ne: "stack s \<noteq> []" and it: "iteration addFct costFct s = Inr s'" by simp_all
    show ?thesis
      by (intro conjI min_plan_iteration(1) [OF it ne] complete_iteration(2) [OF it ne fold]
          min_plan_iteration(3) [OF it ne])
  qed
  show ?thesis
    using inv step unfolding best_inv_def by simp
qed

definition equal_costs :: "(string \<times> int) Choices list" where
  "equal_costs = [[Some (''x'', 1), Some (''y'', 1)]]"

theorem best_plan_only_improves_witness:
  "(\<exists>s s' p. passes 5 add_candidate additive_cost (initial_state [] three_pieces) = Inr s \<and>
       stack s \<noteq> [] \<and> iteration add_candidate additive_cost s = Inr s' \<and>
       onPlan_calls s \<noteq> [] \<and>
       fst (hd (onPlan_calls s)) \<in> complete_plans add_candidate [] three_pieces \<and>
       fst (snd (hd (onPlan_calls s))) = additive_cost (fst (hd (onPlan_calls s))) \<and>
       min_plan s = Some \<lparr>best = [(''a1'', 1), (''b1'', 2), (''c1'', 0)], cost = 3\<rparr> \<and>
       [(''a1'', 1), (''b1'', 2), (''c1'', 0)] \<in> complete_plans add_candidate [] three_pieces \<and>
       p \<in> complete_plans add_candidate [] three_pieces \<and>
       min_plan s' = Some \<lparr>best = p, cost = additive_cost p\<rparr> \<and> additive_cost p < 3 \<and>
       onPlan_calls s' = onPlan_calls s @ [(p, additive_cost p, Some 3)]) \<and>
   (\<exists>t t'. passes 1 add_candidate additive_cost (initial_state [] equal_costs) = Inr t \<and>
       stack t \<noteq> [] \<and> iteration add_candidate additive_cost t = Inr t' \<and>
       min_plan t = Some \<lparr>best = [(''x'', 1)], cost = 1\<rparr> \<and>
       onPlan_calls t' = onPlan_calls t @ [([(''y'', 1)], 1, Some 1)] \<and>
       min_plan t' = Some \<lparr>best = [(''x'', 1)], cost = 1\<rparr>)"
proof -
  let ?m = "\<lparr>best = [(''a1'', 1::int), (''b1'', 2), (''c1'', 0)], cost = 3::int\<rparr>"
  have "case passes 5 add_candidate additive_cost (initial_state [] three_pieces) of
          Inl err \<Rightarrow> False
        | Inr s \<Rightarrow> stack s \<noteq> [] \<and> min_plan s = Some ?m \<and>
            (case iteration add_candidate additive_cost s of
               Inl err \<Rightarrow> False
             | Inr s' \<Rightarrow> min_plan s' \<noteq> min_plan s)"
    by code_simp
  then obtain s s' where s: "passes 5 add_candidate additive_cost (initial_state [] three_pieces) = Inr s"
      "stack s \<noteq> []" "min_plan s = Some ?m" "iteration add_candidate additive_cost s = Inr s'"
      "min_plan s' \<noteq> min_plan s"
    by (auto split: sum.splits)
  note a = best_plan_only_improves [OF s(1), of s']
  from a s obtain p where p: "p \<in> complete_plans add_candidate [] three_pieces"
      "onPlan_calls s' = onPlan_calls s @ [(p, additive_cost p, Some 3)]"
      "min_plan s' = Some \<lparr>best = p, cost = additive_cost p\<rparr>"
    by auto
  from a s obtain m' where "min_plan s' = Some m'" "m' = ?m \<or> cost m' < cost ?m" by blast
  then have lt: "additive_cost p < 3" using p(3) s(3,5) by auto
  have nonempty: "onPlan_calls s \<noteq> []" using a s(3) by auto
  have old: "[(''a1'', 1), (''b1'', 2), (''c1'', 0)] \<in> complete_plans add_candidate [] three_pieces"
    using a s(3) by auto
  have "hd (onPlan_calls s) \<in> set (onPlan_calls s)" using nonempty by simp
  then have call: "fst (hd (onPlan_calls s)) \<in> complete_plans add_candidate [] three_pieces"
      "fst (snd (hd (onPlan_calls s))) = additive_cost (fst (hd (onPlan_calls s)))"
    using a by blast+
  have first: "\<exists>s s' p. passes 5 add_candidate additive_cost (initial_state [] three_pieces) = Inr s \<and>
       stack s \<noteq> [] \<and> iteration add_candidate additive_cost s = Inr s' \<and>
       onPlan_calls s \<noteq> [] \<and>
       fst (hd (onPlan_calls s)) \<in> complete_plans add_candidate [] three_pieces \<and>
       fst (snd (hd (onPlan_calls s))) = additive_cost (fst (hd (onPlan_calls s))) \<and>
       min_plan s = Some ?m \<and>
       [(''a1'', 1), (''b1'', 2), (''c1'', 0)] \<in> complete_plans add_candidate [] three_pieces \<and>
       p \<in> complete_plans add_candidate [] three_pieces \<and>
       min_plan s' = Some \<lparr>best = p, cost = additive_cost p\<rparr> \<and> additive_cost p < 3 \<and>
       onPlan_calls s' = onPlan_calls s @ [(p, additive_cost p, Some 3)]"
    using s p lt nonempty old call by (intro exI [of _ s] exI [of _ s'] exI [of _ p]) simp
  let ?x = "\<lparr>best = [(''x'', 1::int)], cost = 1::int\<rparr>"
  have "case passes 1 add_candidate additive_cost (initial_state [] equal_costs) of
          Inl err \<Rightarrow> False
        | Inr t \<Rightarrow> stack t \<noteq> [] \<and> min_plan t = Some ?x \<and>
            (case iteration add_candidate additive_cost t of
               Inl err \<Rightarrow> False
             | Inr t' \<Rightarrow> onPlan_calls t' = onPlan_calls t @ [([(''y'', 1)], 1, Some 1)])"
    by code_simp
  then obtain t t' where t: "passes 1 add_candidate additive_cost (initial_state [] equal_costs) = Inr t"
      "stack t \<noteq> []" "min_plan t = Some ?x" "iteration add_candidate additive_cost t = Inr t'"
      "onPlan_calls t' = onPlan_calls t @ [([(''y'', 1)], 1, Some 1)]"
    by (auto split: sum.splits)
  have "min_plan t' = Some ?x"
    using best_plan_only_improves [OF t(1), of t'] t(2,3,4,5) by simp
  then have second: "\<exists>t t'. passes 1 add_candidate additive_cost (initial_state [] equal_costs) = Inr t \<and>
       stack t \<noteq> [] \<and> iteration add_candidate additive_cost t = Inr t' \<and>
       min_plan t = Some ?x \<and>
       onPlan_calls t' = onPlan_calls t @ [([(''y'', 1)], 1, Some 1)] \<and>
       min_plan t' = Some ?x"
    using t by (intro exI [of _ t] exI [of _ t']) simp
  show ?thesis using first second by (rule conjI)
qed

section \<open>Pieces folded and pieces remaining\<close>

text \<open>The populated slots of all the choice sets still to decide in a work item.\<close>

definition populated_slots :: "('p, 'e) Partial \<Rightarrow> nat" where
  "populated_slots it = sum_list (map populated (remaining it))"

text \<open>
  C3, as stated: populated slots plus pieces folded is the number of pieces. With plans
  that list the candidates added to them, the number of pieces folded into a plan is its
  length. For one piece with two candidates, the work item on the stack before the first
  pass has two populated slots and nothing folded, and there is one piece.
\<close>

theorem populated_slots_counterexample:
  "populated_slots (last (stack
       ((initial_state [] [[Some (''a1'', 1), Some (''a2'', 5)]])
          :: ((string \<times> int) list, string \<times> int, int) state)))
     + length (partial (last (stack
       ((initial_state [] [[Some (''a1'', 1), Some (''a2'', 5)]])
          :: ((string \<times> int) list, string \<times> int, int) state))))
   \<noteq> length [[Some (''a1'', 1::int), Some (''a2'', 5)]]"
  by (simp add: initial_state_def populated_slots_def populated_def)

text \<open>
  C3, amended: for every work item on the stack in any state of a run, the number of
  choice sets in its remaining choice list plus the number of candidates folded with
  \<open>addFct\<close> into its plan (one of each of the first pieces, in order) is the length of the
  initial choice list.
\<close>

theorem remaining_plus_folded:
  assumes "passes n addFct costFct (initial_state initial toAdd) = Inr s"
  shows "\<forall>it\<in>set (stack s).
           \<exists>es. partial it = foldl addFct initial es \<and>
                list_all2 (\<lambda>e orig. Some e \<in> set orig) es (take (length es) toAdd) \<and>
                length es + length (remaining it) = length toAdd"
proof -
  have inv: "\<forall>it\<in>set (stack s). folded addFct initial toAdd it"
  proof (rule passes_invariant
      [where I = "\<lambda>s. \<forall>it\<in>set (stack s). folded addFct initial toAdd it", OF assms])
    show "\<forall>it\<in>set (stack (initial_state initial toAdd)). folded addFct initial toAdd it"
      by (simp add: initial_state_def folded_initial)
  qed (rule folded_iteration)
  show ?thesis
  proof
    fix it assume "it \<in> set (stack s)"
    with inv obtain es where
      es: "partial it = foldl addFct initial es"
          "list_all2 (\<lambda>e orig. Some e \<in> set orig) es (take (length es) toAdd)"
          "list_all2 (\<lambda>c orig. \<forall>x. Some x \<in> set c \<longrightarrow> Some x \<in> set orig)
             (remaining it) (drop (length es) toAdd)"
      unfolding folded_def by blast
    have "length es \<le> length toAdd" using es(2) by (auto dest: list_all2_lengthD)
    moreover have "length (remaining it) = length toAdd - length es"
      using es(3) by (auto dest: list_all2_lengthD)
    ultimately have "length es + length (remaining it) = length toAdd" by simp
    then show "\<exists>es. partial it = foldl addFct initial es \<and>
                list_all2 (\<lambda>e orig. Some e \<in> set orig) es (take (length es) toAdd) \<and>
                length es + length (remaining it) = length toAdd"
      using es(1,2) by blast
  qed
qed

theorem remaining_plus_folded_witness:
  "\<exists>s es. passes 2 add_candidate additive_cost (initial_state [] three_pieces) = Inr s \<and>
       stack s \<noteq> [] \<and>
       partial (last (stack s)) = foldl add_candidate [] es \<and>
       length es + length (remaining (last (stack s))) = 3"
proof -
  have "case passes 2 add_candidate additive_cost (initial_state [] three_pieces) of
          Inl err \<Rightarrow> False
        | Inr s \<Rightarrow> stack s \<noteq> []"
    by code_simp
  then obtain s where s: "passes 2 add_candidate additive_cost (initial_state [] three_pieces) = Inr s"
      "stack s \<noteq> []"
    by (auto split: sum.splits)
  have "last (stack s) \<in> set (stack s)" using s(2) by simp
  moreover have "length three_pieces = 3" by (simp add: three_pieces_def)
  ultimately show ?thesis using remaining_plus_folded [OF s(1)] s by fastforce
qed

section \<open>A choice set without a candidate\<close>

definition all_empty :: "'e Choices \<Rightarrow> bool" where
  "all_empty c = (\<forall>x\<in>set c. x = None)"

text \<open>No best plan yet, and every work item still has an empty choice set ahead.\<close>

definition blocked :: "('p, 'e, 'c) state \<Rightarrow> bool" where
  "blocked s =
     (min_plan s = None \<and> (\<forall>it\<in>set (stack s). \<exists>c\<in>set (remaining it). all_empty c))"

lemma blocked_iteration:
  assumes "blocked s" and "stack s \<noteq> []" and "iteration addFct costFct s = Inr s'"
  shows "blocked s'"
proof -
  from assms(3,2) obtain item stk1 c rest j e where
    a: "stack s = stk1 @ [item]" "remaining item = c # rest" "j < length c" "c ! j = Some e" and
    sub: "set (stack s') \<subseteq> set stk1
        \<union> (if \<exists>k<length c. k \<noteq> j \<and> c ! k \<noteq> None then {sibling item c rest j} else {})
        \<union> (if rest = [] then {} else {continuation addFct item rest e})" and
    same: "rest \<noteq> [] \<Longrightarrow> min_plan s' = min_plan s \<and> onPlan_calls s' = onPlan_calls s \<and>
        (continuation addFct item rest e \<in> set (stack s') \<or>
         (\<exists>m. min_plan s = Some m \<and> cost m \<le> costFct (addFct (partial item) e)))"
    by (rule iteration_effect) blast
  have "\<not> all_empty c" using a(3,4) nth_mem [of j c] by (auto simp: all_empty_def)
  moreover have "\<exists>c'\<in>set (remaining item). all_empty c'" using assms(1) a(1) by (simp add: blocked_def)
  ultimately have rest: "\<exists>c'\<in>set rest. all_empty c'" using a(2) by auto
  then have ne: "rest \<noteq> []" by auto
  have "min_plan s' = None" using same [OF ne] assms(1) by (simp add: blocked_def)
  moreover have "\<exists>c'\<in>set (remaining (sibling item c rest j)). all_empty c'"
    using rest by (simp add: sibling_def)
  moreover have "\<exists>c'\<in>set (remaining (continuation addFct item rest e)). all_empty c'"
    using rest by (simp add: continuation_def)
  moreover have "\<forall>it\<in>set stk1. \<exists>c'\<in>set (remaining it). all_empty c'"
    using assms(1) a(1) by (simp add: blocked_def)
  ultimately show ?thesis unfolding blocked_def using sub by (auto split: if_splits)
qed

lemma iteration_Inl_assertion:
  assumes "iteration addFct costFct s = Inl err" and "remaining (last (stack s)) \<noteq> []"
  shows "\<exists>msg. err = AssertionError msg"
proof -
  obtain c rest where rem: "remaining (last (stack s)) = c # rest"
    using assms(2) by (cases "remaining (last (stack s))") auto
  show ?thesis
  proof (cases "pickNext (index (last (stack s))) c")
    case (Inl e1)
    then have "err = e1" using assms(1) rem by (simp add: iteration_def Let_def)
    moreover have "\<exists>msg. e1 = AssertionError msg"
      using Inl by (auto simp: pickNext_def split: if_splits option.splits)
    ultimately show ?thesis by simp
  next
    case (Inr j)
    from pickNext_Inr [OF Inr] obtain e where "j < length c" "c ! j = Some e" by auto
    from iteration_eq [OF rem Inr this] show ?thesis using assms(1) by simp
  qed
qed

text \<open>
  C8. When one of the choice sets handed to \<open>generateAllPlansAndFindBest\<close> has no
  populated slot (an empty array, or an array of \<open>undefined\<close> slots only), the call ends
  in a failed assertion: it returns no result, and fails with no other error.
\<close>

theorem empty_choice_set_fails:
  fixes initial :: 'p and toAdd :: "'e Choices list" and costFct :: "'p \<Rightarrow> 'c::linorder"
  assumes "\<exists>c\<in>set toAdd. \<forall>x\<in>set c. x = None"
  shows "\<exists>msg. generateAllPlansAndFindBest initial toAdd addFct costFct = Inl (AssertionError msg)"
proof -
  let ?s0 = "initial_state initial toAdd :: ('p, 'e, 'c) state"
  have "blocked ?s0" using assms unfolding blocked_def initial_state_def all_empty_def by simp
  then have "(\<exists>s'. loop addFct costFct ?s0 = Inr s' \<and> blocked s' \<and> stack s' = []) \<or>
         (\<exists>t err. loop addFct costFct ?s0 = Inl err \<and> blocked t \<and> stack t \<noteq> [] \<and>
                   iteration addFct costFct t = Inl err)"
    by (rule loop_cases) (rule blocked_iteration)
  then show ?thesis
  proof (elim disjE exE conjE)
    fix s' assume "loop addFct costFct ?s0 = Inr s'" "blocked s'"
    then show ?thesis by (simp add: generateAllPlansAndFindBest_def blocked_def)
  next
    fix t err
    assume l: "loop addFct costFct ?s0 = Inl err" and b: "blocked t" and ne: "stack t \<noteq> []"
      and it: "iteration addFct costFct t = Inl err"
    have "last (stack t) \<in> set (stack t)" using ne by simp
    then have "remaining (last (stack t)) \<noteq> []" using b unfolding blocked_def by auto
    from iteration_Inl_assertion [OF it this] show ?thesis
      using l by (auto simp: generateAllPlansAndFindBest_def)
  qed
qed

theorem empty_choice_set_fails_witness:
  "generateAllPlansAndFindBest []
      [[Some (''a1'', 1), Some (''a2'', 5)], [], [Some (''c1'', 0)]] add_candidate additive_cost
     = Inl (AssertionError ''Passed a remaining with all undefined'') \<and>
   generateAllPlansAndFindBest []
      [[Some (''a1'', 1), Some (''a2'', 5)], [None], [Some (''c1'', 0)]] add_candidate additive_cost
     = Inl (AssertionError ''Invalid index'')"
proof -
  let ?A = "[[Some (''a1'', 1::int), Some (''a2'', 5)], [], [Some (''c1'', 0)]]"
  let ?B = "[[Some (''a1'', 1::int), Some (''a2'', 5)], [None], [Some (''c1'', 0)]]"
  have a: "\<exists>c\<in>set ?A. \<forall>x\<in>set c. x = None" by simp
  have b: "\<exists>c\<in>set ?B. \<forall>x\<in>set c. x = None" by simp
  have "generateAllPlansAndFindBest [] ?A add_candidate additive_cost \<noteq> Inl TypeError"
    using empty_choice_set_fails [OF a, of "[]" add_candidate additive_cost] by auto
  moreover have "case generateAllPlansAndFindBest [] ?A add_candidate additive_cost of
      Inl err \<Rightarrow> err = TypeError \<or> err = AssertionError ''Passed a remaining with all undefined''
    | Inr r \<Rightarrow> False"
    by code_simp
  ultimately have first: "generateAllPlansAndFindBest [] ?A add_candidate additive_cost
     = Inl (AssertionError ''Passed a remaining with all undefined'')"
    by (auto split: sum.splits)
  have "generateAllPlansAndFindBest [] ?B add_candidate additive_cost \<noteq> Inl TypeError"
    using empty_choice_set_fails [OF b, of "[]" add_candidate additive_cost] by auto
  moreover have "case generateAllPlansAndFindBest [] ?B add_candidate additive_cost of
      Inl err \<Rightarrow> err = TypeError \<or> err = AssertionError ''Invalid index''
    | Inr r \<Rightarrow> False"
    by code_simp
  ultimately have second: "generateAllPlansAndFindBest [] ?B add_candidate additive_cost
     = Inl (AssertionError ''Invalid index'')"
    by (auto split: sum.splits)
  show ?thesis using first second by (rule conjI)
qed

section \<open>Well-formed work items: the loop body does not fail\<close>

text \<open>
  A work item is well-formed when it has a piece to decide, each of its choice sets has a
  populated slot, and, if it carries an index \<open>i\<close>, all its choice sets after the first are
  fully populated and the first one is fully populated too or, for a root item, populated
  from slot \<open>i\<close> on.
\<close>

definition full :: "'e Choices \<Rightarrow> bool" where
  "full c = (None \<notin> set c)"

definition wf_item :: "('p, 'e) Partial \<Rightarrow> bool" where
  "wf_item it =
     (remaining it \<noteq> [] \<and>
      (\<forall>c\<in>set (remaining it). \<not> all_empty c) \<and>
      (\<forall>i. index it = Some i \<longrightarrow>
         (\<forall>c\<in>set (tl (remaining it)). full c) \<and>
         (if isRoot it
          then (\<forall>k. i \<le> k \<and> k < length (hd (remaining it)) \<longrightarrow> hd (remaining it) ! k \<noteq> None)
          else full (hd (remaining it)))))"

definition wf_state :: "('p, 'e, 'c) state \<Rightarrow> bool" where
  "wf_state s = ((\<forall>it\<in>set (stack s). wf_item it) \<and> (min_plan s \<noteq> None \<or> stack s \<noteq> []))"

lemma full_nth: "full c \<Longrightarrow> k < length c \<Longrightarrow> c ! k \<noteq> None"
  unfolding full_def by (metis nth_mem)

lemma not_all_empty_scan:
  assumes "\<not> all_empty c"
  shows "\<exists>j. scan 0 c = Some j"
proof (cases "scan 0 c")
  case None
  have "\<forall>x\<in>set c. x = None"
  proof
    fix x assume "x \<in> set c"
    then obtain k where "k < length c" "c ! k = x" by (auto simp: in_set_conv_nth)
    then show "x = None" using scan_None [OF None, of k] by simp
  qed
  then show ?thesis using assms by (simp add: all_empty_def)
next
  case (Some j)
  then show ?thesis by simp
qed

lemma wf_item_pickNext:
  assumes "wf_item it" and "remaining it = c # rest"
  shows "\<exists>j. pickNext (index it) c = Inr j"
proof (cases "index it = None \<or> the (index it) \<ge> length c")
  case True
  have "\<not> all_empty c" using assms by (simp add: wf_item_def)
  from not_all_empty_scan [OF this] obtain j where "scan 0 c = Some j" ..
  then show ?thesis using True by (simp add: pickNext_def)
next
  case False
  then obtain i where i: "index it = Some i" "i < length c" by auto
  have "c ! i \<noteq> None"
  proof (cases "isRoot it")
    case True
    then show ?thesis using assms i by (simp add: wf_item_def)
  next
    case False
    then have "full c" using assms i by (simp add: wf_item_def)
    then show ?thesis using i(2) by (rule full_nth)
  qed
  then show ?thesis using i by (simp add: pickNext_def)
qed

lemma pickNext_preferred:
  "pickNext (Some i) c = Inr j \<Longrightarrow> i < length c \<Longrightarrow> j = i"
  by (simp add: pickNext_def split: if_splits)

lemma wf_state_iteration_Inr:
  assumes "wf_state s" and "stack s \<noteq> []"
  shows "\<exists>s'. iteration addFct costFct s = Inr s'"
proof -
  let ?item = "last (stack s)"
  have wf: "wf_item ?item" using assms by (simp add: wf_state_def)
  then obtain c rest where rem: "remaining ?item = c # rest"
    by (cases "remaining ?item") (auto simp: wf_item_def)
  from wf_item_pickNext [OF wf rem] obtain j where pick: "pickNext (index ?item) c = Inr j" ..
  from pickNext_Inr [OF pick] obtain e where "j < length c" "c ! j = Some e" by auto
  from iteration_eq [OF rem pick this] show ?thesis by simp
qed

lemma sibling_index_Some:
  assumes "sibling_index root idx c = Some i'"
  shows "root \<and> (\<exists>i. idx = Some i \<and> Suc i < length c \<and> i' = Suc i)"
proof (cases "root \<and> idx \<noteq> None \<and> int (the idx) < int (length c) - 1")
  case True
  then obtain i where i: "idx = Some i" by auto
  have "i' = Suc i" using assms True i unfolding sibling_index_def by simp
  moreover have "Suc i < length c" using True i by simp
  ultimately show ?thesis using True i by simp
next
  case False
  then have "sibling_index root idx c = None" unfolding sibling_index_def by (simp only: if_False)
  then show ?thesis using assms by simp
qed

lemma wf_item_sibling:
  assumes "wf_item item" and "remaining item = c # rest" and "pickNext (index item) c = Inr j"
    and "\<exists>k<length c. k \<noteq> j \<and> c ! k \<noteq> None"
  shows "wf_item (sibling item c rest j)"
proof -
  from assms(4) obtain k where k: "k < length c" "k \<noteq> j" "c ! k \<noteq> None" by blast
  then have "c[j := None] ! k \<noteq> None" "k < length (c[j := None])" by simp_all
  then have ne: "\<not> all_empty (c[j := None])" unfolding all_empty_def by (metis nth_mem)
  have sets: "\<forall>c'\<in>set (remaining (sibling item c rest j)). \<not> all_empty c'"
    using assms(1,2) ne by (simp add: wf_item_def sibling_def)
  have idx: "(\<forall>c'\<in>set rest. full c') \<and>
             (\<forall>k. i' \<le> k \<and> k < length (c[j := None]) \<longrightarrow> c[j := None] ! k \<noteq> None)"
    if "sibling_index (isRoot item) (index item) c = Some i'" for i'
  proof -
    from sibling_index_Some [OF that]
    obtain i where i: "isRoot item" "index item = Some i" "Suc i < length c" "i' = Suc i"
      by blast
    have "j = i" using pickNext_preferred [of i c j] assms(3) i by simp
    then show ?thesis using assms(1,2) i by (simp add: wf_item_def)
  qed
  have rem: "remaining (sibling item c rest j) = c[j := None] # rest"
    and root: "isRoot (sibling item c rest j) = isRoot item"
    and ix: "index (sibling item c rest j) = sibling_index (isRoot item) (index item) c"
    by (simp_all add: sibling_def)
  have "\<forall>i'. index (sibling item c rest j) = Some i' \<longrightarrow>
         (\<forall>c'\<in>set (tl (remaining (sibling item c rest j))). full c') \<and>
         (if isRoot (sibling item c rest j)
          then (\<forall>k. i' \<le> k \<and> k < length (hd (remaining (sibling item c rest j)))
                  \<longrightarrow> hd (remaining (sibling item c rest j)) ! k \<noteq> None)
          else full (hd (remaining (sibling item c rest j))))"
  proof (intro allI impI)
    fix i' assume "index (sibling item c rest j) = Some i'"
    then have si: "sibling_index (isRoot item) (index item) c = Some i'" using ix by simp
    from sibling_index_Some [OF si] have "isRoot item" by simp
    then show "(\<forall>c'\<in>set (tl (remaining (sibling item c rest j))). full c') \<and>
         (if isRoot (sibling item c rest j)
          then (\<forall>k. i' \<le> k \<and> k < length (hd (remaining (sibling item c rest j)))
                  \<longrightarrow> hd (remaining (sibling item c rest j)) ! k \<noteq> None)
          else full (hd (remaining (sibling item c rest j))))"
      using idx [OF si] unfolding rem root by simp
  qed
  moreover have "remaining (sibling item c rest j) \<noteq> []" unfolding rem by simp
  ultimately show ?thesis unfolding wf_item_def using sets by blast
qed

lemma wf_item_continuation:
  assumes "wf_item item" and "remaining item = c # rest" and "rest \<noteq> []"
  shows "wf_item (continuation addFct item rest e)"
proof -
  have "hd rest \<in> set rest" using assms(3) by simp
  moreover have "set (tl rest) \<subseteq> set rest" using assms(3) by (cases rest) auto
  ultimately show ?thesis
    using assms unfolding wf_item_def continuation_def by auto
qed

lemma wf_state_iteration:
  assumes "wf_state s" and "stack s \<noteq> []" and "iteration addFct costFct s = Inr s'"
  shows "wf_state s'"
proof -
  from assms(3,2) obtain item stk1 c rest j e where
    a: "stack s = stk1 @ [item]" "remaining item = c # rest" "pickNext (index item) c = Inr j" and
    sub: "set (stack s') \<subseteq> set stk1
        \<union> (if \<exists>k<length c. k \<noteq> j \<and> c ! k \<noteq> None then {sibling item c rest j} else {})
        \<union> (if rest = [] then {} else {continuation addFct item rest e})" and
    unf: "rest \<noteq> [] \<Longrightarrow> min_plan s' = min_plan s \<and> onPlan_calls s' = onPlan_calls s \<and>
        (continuation addFct item rest e \<in> set (stack s') \<or>
         (\<exists>m. min_plan s = Some m \<and> cost m \<le> costFct (addFct (partial item) e)))" and
    fin: "rest = [] \<Longrightarrow>
        min_plan s' = (if (case min_plan s of None \<Rightarrow> True
                           | Some m \<Rightarrow> costFct (addFct (partial item) e) < cost m)
                       then Some \<lparr>best = addFct (partial item) e, cost = costFct (addFct (partial item) e)\<rparr>
                       else min_plan s) \<and>
        onPlan_calls s' = onPlan_calls s
           @ [(addFct (partial item) e, costFct (addFct (partial item) e), map_option cost (min_plan s))]"
    by (rule iteration_effect) blast
  have wf: "wf_item item" "\<forall>it\<in>set stk1. wf_item it" using assms(1) a(1) by (simp_all add: wf_state_def)
  have "\<forall>it\<in>set (stack s'). wf_item it"
  proof
    fix it assume "it \<in> set (stack s')"
    then consider "it \<in> set stk1"
      | "\<exists>k<length c. k \<noteq> j \<and> c ! k \<noteq> None" "it = sibling item c rest j"
      | "rest \<noteq> []" "it = continuation addFct item rest e"
      using sub by (auto split: if_splits)
    then show "wf_item it"
    proof cases
      case 1
      then show ?thesis using wf(2) by simp
    next
      case 2
      then show ?thesis using wf_item_sibling [OF wf(1) a(2,3)] by simp
    next
      case 3
      then show ?thesis using wf_item_continuation [OF wf(1) a(2)] by simp
    qed
  qed
  moreover have "min_plan s' \<noteq> None \<or> stack s' \<noteq> []"
  proof (cases "rest = []")
    case True
    then show ?thesis using fin by (auto split: if_splits)
  next
    case False
    then show ?thesis using unf by auto
  qed
  ultimately show ?thesis by (simp add: wf_state_def)
qed

lemma wf_state_initial:
  assumes "toAdd \<noteq> []" and "\<forall>c\<in>set toAdd. c \<noteq> [] \<and> None \<notin> set c"
  shows "wf_state (initial_state initial toAdd)"
proof -
  have a: "\<forall>c\<in>set toAdd. \<not> all_empty c"
  proof
    fix c assume "c \<in> set toAdd"
    then have "c \<noteq> []" "None \<notin> set c" using assms(2) by simp_all
    then have "hd c \<in> set c" by simp
    moreover from this have "hd c \<noteq> None" using \<open>None \<notin> set c\<close> by metis
    ultimately show "\<not> all_empty c" unfolding all_empty_def by auto
  qed
  have b: "\<forall>c\<in>set toAdd. full c" using assms(2) by (simp add: full_def)
  have "hd toAdd \<in> set toAdd" using assms(1) by simp
  then have "full (hd toAdd)" using b by simp
  then have c: "hd toAdd ! k \<noteq> None" if "k < length (hd toAdd)" for k
    using that by (rule full_nth)
  have d: "\<forall>c\<in>set (tl toAdd). full c"
    using b assms(1) by (cases toAdd) auto
  have "wf_item \<lparr>partial = initial, remaining = toAdd, isRoot = True, index = Some 0\<rparr>"
    unfolding wf_item_def using assms(1) a c d by simp
  then show ?thesis by (simp add: wf_state_def initial_state_def)
qed

text \<open>From a well-formed state the loop runs to its end, and a best plan has been found.\<close>

lemma wf_state_loop:
  assumes "wf_state s" and "I s"
    and "\<And>t t'. wf_state t \<Longrightarrow> I t \<Longrightarrow> stack t \<noteq> [] \<Longrightarrow> iteration addFct costFct t = Inr t' \<Longrightarrow> I t'"
  shows "\<exists>s' m. loop addFct costFct s = Inr s' \<and> stack s' = [] \<and> min_plan s' = Some m \<and> I s'"
proof -
  have "(\<exists>s'. loop addFct costFct s = Inr s' \<and> (wf_state s' \<and> I s') \<and> stack s' = []) \<or>
         (\<exists>t err. loop addFct costFct s = Inl err \<and> (wf_state t \<and> I t) \<and> stack t \<noteq> [] \<and>
                   iteration addFct costFct t = Inl err)"
  proof (rule loop_cases)
    show "wf_state s \<and> I s" using assms(1,2) by simp
  next
    fix t t' assume "wf_state t \<and> I t" "stack t \<noteq> []" "iteration addFct costFct t = Inr t'"
    then show "wf_state t' \<and> I t'" using wf_state_iteration assms(3) by blast
  qed
  then show ?thesis
  proof (elim disjE exE conjE)
    fix s' assume "loop addFct costFct s = Inr s'" "wf_state s'" "I s'" "stack s' = []"
    then show ?thesis by (auto simp: wf_state_def)
  next
    fix t err assume "wf_state t" "stack t \<noteq> []" "iteration addFct costFct t = Inl err"
    then show ?thesis using wf_state_iteration_Inr [of t addFct costFct] by simp
  qed
qed

section \<open>Termination of a call\<close>

text \<open>
  The loop ends after finitely many passes: with an empty stack, or in the pass that
  fails.
\<close>

lemma loop_ends:
  "\<exists>n. (case loop addFct costFct s of
          Inl err \<Rightarrow> passes n addFct costFct s = Inl err
        | Inr s' \<Rightarrow> passes n addFct costFct s = Inr s' \<and> stack s' = [])"
proof (induction addFct costFct s rule: loop.induct)
  case (1 addFct costFct s)
  show ?case
  proof (cases "stack s = []")
    case True
    then have "loop addFct costFct s = Inr s" "passes 0 addFct costFct s = Inr s"
      by (simp_all add: loop.simps [of _ _ s])
    then show ?thesis using True by (intro exI [of _ 0]) simp
  next
    case False
    show ?thesis
    proof (cases "iteration addFct costFct s")
      case (Inl err)
      then have "loop addFct costFct s = Inl err" "passes (Suc 0) addFct costFct s = Inl err"
        using False by (simp_all add: loop.simps [of _ _ s])
      then show ?thesis by (intro exI [of _ "Suc 0"]) simp
    next
      case (Inr t)
      from "1.IH" [OF False Inr] obtain n where
        n: "case loop addFct costFct t of
              Inl err \<Rightarrow> passes n addFct costFct t = Inl err
            | Inr s' \<Rightarrow> passes n addFct costFct t = Inr s' \<and> stack s' = []" ..
      have l: "loop addFct costFct s = loop addFct costFct t"
        using False Inr by (simp add: loop.simps [of _ _ s])
      have p: "passes (Suc n) addFct costFct s = passes n addFct costFct t"
        using False Inr by simp
      have "case loop addFct costFct s of
              Inl err \<Rightarrow> passes (Suc n) addFct costFct s = Inl err
            | Inr s' \<Rightarrow> passes (Suc n) addFct costFct s = Inr s' \<and> stack s' = []"
        unfolding l p by (rule n)
      then show ?thesis ..
    qed
  qed
qed

text \<open>
  C9, as stated, covers every choice list whose choice sets have a populated slot. It
  fails on the empty choice list: the first pass reads \<open>remaining[0]\<close>, which is
  \<open>undefined\<close>, and \<open>pickNext\<close> throws a \<open>TypeError\<close> on its length. It fails too on a
  choice set whose slot 0 is empty: the root item asks for index 0, and the assertion of
  \<open>pickNext\<close> fails. In both cases the call does not return.
\<close>

theorem no_return_counterexample:
  "generateAllPlansAndFindBest [] [] add_candidate additive_cost = Inl TypeError \<and>
   generateAllPlansAndFindBest [] [[None, Some (''a1'', 1)]] add_candidate additive_cost
     = Inl (AssertionError ''Invalid index'')"
  by code_simp

text \<open>
  C9, amended: for every initial plan and every choice list, the loop ends after finitely
  many passes, with an empty stack or in a pass that fails. When the choice list is not
  empty and every choice set is a non-empty array without empty slot, no pass fails: the
  stack becomes empty and the call returns a result.
\<close>

theorem call_returns:
  fixes initial :: 'p and toAdd :: "'e Choices list" and costFct :: "'p \<Rightarrow> 'c::linorder"
  shows "(\<exists>n. (\<exists>err. passes n addFct costFct (initial_state initial toAdd) = Inl err \<and>
                    loop addFct costFct (initial_state initial toAdd) = Inl err) \<or>
              (\<exists>s. passes n addFct costFct (initial_state initial toAdd) = Inr s \<and>
                   loop addFct costFct (initial_state initial toAdd) = Inr s \<and> stack s = [])) \<and>
         (toAdd \<noteq> [] \<and> (\<forall>c\<in>set toAdd. c \<noteq> [] \<and> None \<notin> set c) \<longrightarrow>
            (\<exists>n s r. passes n addFct costFct (initial_state initial toAdd) = Inr s \<and>
                 loop addFct costFct (initial_state initial toAdd) = Inr s \<and> stack s = [] \<and>
                 generateAllPlansAndFindBest initial toAdd addFct costFct = Inr r))"
proof (intro conjI impI)
  let ?s0 = "initial_state initial toAdd :: ('p, 'e, 'c) state"
  from loop_ends [of addFct costFct ?s0] obtain n where
    n: "case loop addFct costFct ?s0 of
          Inl err \<Rightarrow> passes n addFct costFct ?s0 = Inl err
        | Inr s' \<Rightarrow> passes n addFct costFct ?s0 = Inr s' \<and> stack s' = []" ..
  show "\<exists>n. (\<exists>err. passes n addFct costFct ?s0 = Inl err \<and> loop addFct costFct ?s0 = Inl err) \<or>
            (\<exists>s. passes n addFct costFct ?s0 = Inr s \<and> loop addFct costFct ?s0 = Inr s \<and> stack s = [])"
    using n by (intro exI [of _ n]) (cases "loop addFct costFct ?s0"; simp)
  assume full: "toAdd \<noteq> [] \<and> (\<forall>c\<in>set toAdd. c \<noteq> [] \<and> None \<notin> set c)"
  have "\<exists>s' m. loop addFct costFct ?s0 = Inr s' \<and> stack s' = [] \<and> min_plan s' = Some m \<and> True"
    by (rule wf_state_loop [where I = "\<lambda>s. True"]) (use full in \<open>simp_all add: wf_state_initial\<close>)
  then obtain s' m where s': "loop addFct costFct ?s0 = Inr s'" "stack s' = []" "min_plan s' = Some m"
    by blast
  then have "passes n addFct costFct ?s0 = Inr s'" using n by simp
  moreover have "generateAllPlansAndFindBest initial toAdd addFct costFct = Inr m"
    using s'(1,3) by (simp add: generateAllPlansAndFindBest_def)
  ultimately show "\<exists>n s r. passes n addFct costFct ?s0 = Inr s \<and>
                 loop addFct costFct ?s0 = Inr s \<and> stack s = [] \<and>
                 generateAllPlansAndFindBest initial toAdd addFct costFct = Inr r"
    using s'(1,2) by blast
qed

theorem call_returns_witness:
  "\<exists>n s r. passes n add_candidate additive_cost (initial_state [] three_pieces) = Inr s \<and>
         loop add_candidate additive_cost (initial_state [] three_pieces) = Inr s \<and> stack s = [] \<and>
         generateAllPlansAndFindBest [] three_pieces add_candidate additive_cost = Inr r"
proof -
  have "three_pieces \<noteq> [] \<and> (\<forall>c\<in>set three_pieces. c \<noteq> [] \<and> None \<notin> set c)"
    by (simp add: three_pieces_def)
  then show ?thesis
    using call_returns [of add_candidate additive_cost "[]" three_pieces, THEN conjunct2] by simp
qed

section \<open>The first complete plan\<close>

text \<open>The plan made of the candidates at index 0 of the first \<open>k\<close> choice sets.\<close>

definition diagonal_plan :: "('p \<Rightarrow> 'e \<Rightarrow> 'p) \<Rightarrow> 'p \<Rightarrow> 'e list list \<Rightarrow> 'p" where
  "diagonal_plan addFct initial toAdd = foldl addFct initial (map (\<lambda>c. c ! 0) toAdd)"

text \<open>
  Before the first call of \<open>onPlan\<close>: the item to pop next holds the plan of the candidates
  at index 0 of the pieces decided so far, the untouched choice sets of the others, and
  index 0.
\<close>

definition on_diagonal ::
  "('p \<Rightarrow> 'e \<Rightarrow> 'p) \<Rightarrow> 'p \<Rightarrow> 'e list list \<Rightarrow> ('p, 'e, 'c) state \<Rightarrow> bool" where
  "on_diagonal addFct initial toAdd s =
     (onPlan_calls s = [] \<and> min_plan s = None \<and> stack s \<noteq> [] \<and>
      (\<exists>k<length toAdd.
          partial (last (stack s)) = diagonal_plan addFct initial (take k toAdd) \<and>
          remaining (last (stack s)) = map (map Some) (drop k toAdd) \<and>
          index (last (stack s)) = Some 0))"

definition first_call_seen ::
  "('p \<Rightarrow> 'e \<Rightarrow> 'p) \<Rightarrow> ('p \<Rightarrow> 'c) \<Rightarrow> 'p \<Rightarrow> 'e list list \<Rightarrow> ('p, 'e, 'c) state \<Rightarrow> bool" where
  "first_call_seen addFct costFct initial toAdd s =
     (\<exists>calls. onPlan_calls s =
        (diagonal_plan addFct initial toAdd, costFct (diagonal_plan addFct initial toAdd), None) # calls)"

lemma diagonal_plan_Suc:
  "k < length toAdd \<Longrightarrow>
   diagonal_plan addFct initial (take (Suc k) toAdd)
     = addFct (diagonal_plan addFct initial (take k toAdd)) ((toAdd ! k) ! 0)"
  by (simp add: diagonal_plan_def take_Suc_conv_app_nth)

lemma on_diagonal_iteration:
  fixes s :: "('p, 'e, 'c::linorder) state"
  assumes diag: "on_diagonal addFct initial toAdd s"
    and it: "iteration addFct costFct s = Inr s'"
  shows "on_diagonal addFct initial toAdd s' \<or> first_call_seen addFct costFct initial toAdd s'"
proof -
  from diag obtain k where k: "k < length toAdd"
    and calls: "onPlan_calls s = []" and mn: "min_plan s = None" and ne: "stack s \<noteq> []"
    and par: "partial (last (stack s)) = diagonal_plan addFct initial (take k toAdd)"
    and rem: "remaining (last (stack s)) = map (map Some) (drop k toAdd)"
    and ix: "index (last (stack s)) = Some 0"
    unfolding on_diagonal_def by blast
  let ?c = "map Some (toAdd ! k)" and ?rest = "map (map Some) (drop (Suc k) toAdd)"
  have rem': "remaining (last (stack s)) = ?c # ?rest"
    using rem k by (simp add: Cons_nth_drop_Suc [symmetric])
  have ck: "toAdd ! k \<noteq> []"
  proof -
    from it ne obtain item stk1 c rest j e where
      "stack s = stk1 @ [item]" "remaining item = c # rest" "j < length c" "c ! j = Some e"
      by (rule iteration_stack)
    then show ?thesis using rem' by auto
  qed
  then have c0: "0 < length ?c" "?c ! 0 = Some ((toAdd ! k) ! 0)" by simp_all
  have pick: "pickNext (index (last (stack s))) ?c = Inr 0"
    using c0 ix by (simp add: pickNext_def)
  let ?new = "addFct (partial (last (stack s))) ((toAdd ! k) ! 0)"
  have new: "?new = diagonal_plan addFct initial (take (Suc k) toAdd)"
    by (simp only: par diagonal_plan_Suc [OF k])
  note eq = it [unfolded iteration_eq [OF rem' pick c0]]
  show ?thesis
  proof (cases "?rest = []")
    case True
    then have "take (Suc k) toAdd = toAdd" using k by simp
    then have "?new = diagonal_plan addFct initial toAdd" using new by simp
    moreover have "onPlan_calls s' = [(?new, costFct ?new, None)]"
      using eq True calls mn by auto
    ultimately show ?thesis by (simp add: first_call_seen_def)
  next
    case False
    then have k': "Suc k < length toAdd" by simp
    let ?cont = "continuation addFct (last (stack s)) ?rest ((toAdd ! k) ! 0)"
    have s': "s' = s\<lparr>stack := insertInStack ?cont
                 (after_sibling (butlast (stack s)) (last (stack s)) ?c ?rest 0)\<rparr>"
      using eq False mn by auto
    have "index ?cont = Some 0" using ix by (simp add: continuation_def)
    then have st: "stack s' = after_sibling (butlast (stack s)) (last (stack s)) ?c ?rest 0 @ [?cont]"
      using s' by (simp add: insertInStack_def)
    have "partial (last (stack s')) = diagonal_plan addFct initial (take (Suc k) toAdd)"
      "remaining (last (stack s')) = map (map Some) (drop (Suc k) toAdd)"
      "index (last (stack s')) = Some 0"
      using st new ix by (simp_all add: continuation_def)
    moreover have "onPlan_calls s' = []" "min_plan s' = None" "stack s' \<noteq> []"
      using s' st calls mn by simp_all
    ultimately show ?thesis unfolding on_diagonal_def using k' by blast
  qed
qed

lemma first_call_seen_iteration:
  assumes "first_call_seen addFct costFct initial toAdd s" and "stack s \<noteq> []"
    and "iteration addFct costFct s = Inr s'"
  shows "first_call_seen addFct costFct initial toAdd s'"
proof -
  from assms(3,2) obtain item :: "('a, 'b) Partial" and rest :: "'b Choices list" and e where
    unf: "rest \<noteq> [] \<Longrightarrow> min_plan s' = min_plan s \<and> onPlan_calls s' = onPlan_calls s \<and>
        (continuation addFct item rest e \<in> set (stack s') \<or>
         (\<exists>m. min_plan s = Some m \<and> cost m \<le> costFct (addFct (partial item) e)))" and
    fin: "rest = [] \<Longrightarrow>
        min_plan s' = (if (case min_plan s of None \<Rightarrow> True
                           | Some m \<Rightarrow> costFct (addFct (partial item) e) < cost m)
                       then Some \<lparr>best = addFct (partial item) e, cost = costFct (addFct (partial item) e)\<rparr>
                       else min_plan s) \<and>
        onPlan_calls s' = onPlan_calls s
           @ [(addFct (partial item) e, costFct (addFct (partial item) e), map_option cost (min_plan s))]"
    by (rule iteration_effect) blast
  have "\<exists>more. onPlan_calls s' = onPlan_calls s @ more"
    using unf fin by (cases "rest = []") auto
  then show ?thesis using assms(1) unfolding first_call_seen_def by auto
qed

lemma diagonal_initial:
  assumes "toAdd \<noteq> []"
  shows "on_diagonal addFct initial toAdd (initial_state initial (map (map Some) toAdd))"
proof -
  have "0 < length toAdd" using assms by simp
  then show ?thesis
    unfolding on_diagonal_def
    by (intro conjI exI [of _ 0]) (simp_all add: initial_state_def diagonal_plan_def)
qed

lemma diagonal_step:
  fixes t :: "('p, 'e, 'c::linorder) state"
  assumes "on_diagonal addFct initial toAdd t \<or> first_call_seen addFct costFct initial toAdd t"
    and "stack t \<noteq> []" and "iteration addFct costFct t = Inr t'"
  shows "on_diagonal addFct initial toAdd t' \<or> first_call_seen addFct costFct initial toAdd t'"
  using assms(1)
proof
  assume "on_diagonal addFct initial toAdd t"
  from on_diagonal_iteration [OF this assms(3)] show ?thesis .
next
  assume "first_call_seen addFct costFct initial toAdd t"
  from first_call_seen_iteration [OF this assms(2,3)] show ?thesis ..
qed

text \<open>
  C10. Take a choice list with at least one piece, all of whose slots are populated: the
  arrays \<open>toAdd\<close> of candidates, each slot holding its candidate. In every state of a
  run, \<open>onPlan\<close> has not been called yet, or its first call was for the plan that folds
  \<open>addFct\<close> over the candidates at index 0 of all choice sets, in order, from the initial
  plan, with that plan's cost and \<open>undefined\<close> as the previous cost. When no choice set is
  empty, the call runs to its end and that first call is made.
\<close>

theorem first_onPlan_call:
  fixes initial :: 'p and toAdd :: "'e list list" and costFct :: "'p \<Rightarrow> 'c::linorder"
  assumes "toAdd \<noteq> []"
  shows "(passes n addFct costFct (initial_state initial (map (map Some) toAdd)) = Inr s \<longrightarrow>
            onPlan_calls s = [] \<or>
            (\<exists>calls. onPlan_calls s =
               (foldl addFct initial (map (\<lambda>c. c ! 0) toAdd),
                costFct (foldl addFct initial (map (\<lambda>c. c ! 0) toAdd)),
                None) # calls)) \<and>
         ((\<forall>c\<in>set toAdd. c \<noteq> []) \<longrightarrow>
            (\<exists>s' calls. loop addFct costFct (initial_state initial (map (map Some) toAdd)) = Inr s' \<and>
               onPlan_calls s' =
                 (foldl addFct initial (map (\<lambda>c. c ! 0) toAdd),
                  costFct (foldl addFct initial (map (\<lambda>c. c ! 0) toAdd)),
                  None) # calls))"
proof (intro conjI impI)
  let ?I = "\<lambda>s :: ('p, 'e, 'c) state.
      on_diagonal addFct initial toAdd s \<or> first_call_seen addFct costFct initial toAdd s"
  let ?s0 = "initial_state initial (map (map Some) toAdd) :: ('p, 'e, 'c) state"
  {
    assume run: "passes n addFct costFct ?s0 = Inr s"
    have "?I s"
    proof (rule passes_invariant [where I = ?I, OF run])
      show "?I ?s0" using diagonal_initial [OF assms] ..
    qed (rule diagonal_step)
    then show "onPlan_calls s = [] \<or>
            (\<exists>calls. onPlan_calls s =
               (foldl addFct initial (map (\<lambda>c. c ! 0) toAdd),
                costFct (foldl addFct initial (map (\<lambda>c. c ! 0) toAdd)),
                None) # calls)"
      unfolding on_diagonal_def first_call_seen_def diagonal_plan_def by blast
  }
  {
    assume nonempty: "\<forall>c\<in>set toAdd. c \<noteq> []"
    have "\<exists>s' m. loop addFct costFct ?s0 = Inr s' \<and>
             stack s' = [] \<and> min_plan s' = Some m \<and> ?I s'"
    proof (rule wf_state_loop [where I = ?I])
      have "map (map Some) toAdd \<noteq> []" using assms by simp
      moreover have "\<forall>c\<in>set (map (map Some) toAdd). c \<noteq> [] \<and> None \<notin> set c"
        using nonempty by auto
      ultimately show "wf_state ?s0" by (rule wf_state_initial)
      show "?I ?s0" using diagonal_initial [OF assms] ..
    next
      fix t t' :: "('p, 'e, 'c) state"
      assume "?I t" "stack t \<noteq> []" "iteration addFct costFct t = Inr t'"
      then show "?I t'" by (rule diagonal_step)
    qed
    then obtain s' where s': "loop addFct costFct ?s0 = Inr s'" "stack s' = []" "?I s'"
      by blast
    have "\<not> on_diagonal addFct initial toAdd s'" using s'(2) by (simp add: on_diagonal_def)
    then have "first_call_seen addFct costFct initial toAdd s'" using s'(3) by simp
    then show "\<exists>s' calls. loop addFct costFct ?s0 = Inr s' \<and>
               onPlan_calls s' =
                 (foldl addFct initial (map (\<lambda>c. c ! 0) toAdd),
                  costFct (foldl addFct initial (map (\<lambda>c. c ! 0) toAdd)),
                  None) # calls"
      using s'(1) unfolding first_call_seen_def diagonal_plan_def by blast
  }
qed

text \<open>The candidates of the three-piece scenario, as the arrays passed in.\<close>

definition three_arrays :: "(string \<times> int) list list" where
  "three_arrays = [[(''a1'', 1), (''a2'', 5)], [(''b1'', 2), (''b2'', 1)], [(''c1'', 0)]]"

theorem first_onPlan_call_witness:
  "(\<exists>s. passes 3 add_candidate additive_cost (initial_state [] (map (map Some) three_arrays)) = Inr s \<and>
        onPlan_calls s = [([(''a1'', 1), (''b1'', 2), (''c1'', 0)], 3, None)]) \<and>
   (\<exists>s' calls. loop add_candidate additive_cost (initial_state [] (map (map Some) three_arrays)) = Inr s' \<and>
       onPlan_calls s' = ([(''a1'', 1), (''b1'', 2), (''c1'', 0)], 3, None) # calls)"
proof -
  have a: "three_arrays \<noteq> []" "\<forall>c\<in>set three_arrays. c \<noteq> []" by (simp_all add: three_arrays_def)
  have b: "foldl add_candidate [] (map (\<lambda>c. c ! 0) three_arrays)
             = [(''a1'', 1), (''b1'', 2), (''c1'', 0)]"
    by (simp add: three_arrays_def add_candidate_def)
  have c: "additive_cost [(''a1'', 1), (''b1'', 2), (''c1'', 0)] = 3"
    by (simp add: additive_cost_def)
  have "case passes 3 add_candidate additive_cost (initial_state [] (map (map Some) three_arrays)) of
          Inl err \<Rightarrow> False
        | Inr s \<Rightarrow> length (onPlan_calls s) = 1"
    by code_simp
  then obtain s where s: "passes 3 add_candidate additive_cost (initial_state [] (map (map Some) three_arrays)) = Inr s"
      "length (onPlan_calls s) = 1"
    by (auto split: sum.splits)
  note inst = first_onPlan_call [OF a(1), of _ add_candidate additive_cost "[]", unfolded b c]
  from inst [of 3 s] s have "onPlan_calls s = [([(''a1'', 1), (''b1'', 2), (''c1'', 0)], 3, None)]"
    by auto
  then show ?thesis using s(1) inst [of 3 s] a(2) by blast
qed

section \<open>The plan returned is a cheapest complete plan\<close>

text \<open>The complete plans a work item stands for.\<close>

definition completions :: "('p \<Rightarrow> 'e \<Rightarrow> 'p) \<Rightarrow> ('p, 'e) Partial \<Rightarrow> 'p set" where
  "completions addFct it =
     set (map (foldl addFct (partial it)) (product_lists (map candidates (remaining it))))"

lemma set_product_lists_Cons:
  "set (product_lists (xs # xss)) = {x # ys | x ys. x \<in> set xs \<and> ys \<in> set (product_lists xss)}"
  by auto

lemma completions_Cons:
  assumes "remaining it = c # rest"
  shows "completions addFct it =
           {foldl addFct (addFct (partial it) x) es | x es.
              Some x \<in> set c \<and> es \<in> set (product_lists (map candidates rest))}"
proof -
  have "completions addFct it =
          foldl addFct (partial it) ` set (product_lists (candidates c # map candidates rest))"
    using assms by (simp add: completions_def)
  also have "\<dots> = foldl addFct (partial it) `
          {x # es | x es. x \<in> set (candidates c) \<and> es \<in> set (product_lists (map candidates rest))}"
    by (simp only: set_product_lists_Cons)
  also have "\<dots> = {foldl addFct (partial it) (x # es) | x es.
              x \<in> set (candidates c) \<and> es \<in> set (product_lists (map candidates rest))}"
    by blast
  also have "\<dots> = {foldl addFct (addFct (partial it) x) es | x es.
              Some x \<in> set c \<and> es \<in> set (product_lists (map candidates rest))}"
    by (simp add: set_candidates)
  finally show ?thesis .
qed

lemma completions_initial:
  "completions addFct \<lparr>partial = initial, remaining = toAdd, isRoot = r, index = i\<rparr>
     = complete_plans addFct initial toAdd"
  by (simp add: completions_def complete_plans_def all_plans_def)

lemma set_clear:
  assumes "j < length c" and "c ! j = Some e" and "Some x \<in> set c"
  shows "x = e \<or> (Some x \<in> set (c[j := None]) \<and> (\<exists>k<length c. k \<noteq> j \<and> c ! k \<noteq> None))"
proof -
  from assms(3) obtain k where k: "k < length c" "c ! k = Some x" by (auto simp: in_set_conv_nth)
  show ?thesis
  proof (cases "k = j")
    case True
    then show ?thesis using k assms(2) by simp
  next
    case False
    then have "c[j := None] ! k = Some x" "k < length (c[j := None])" using k by simp_all
    then have "Some x \<in> set (c[j := None])" by (metis nth_mem)
    then show ?thesis using False k by auto
  qed
qed

lemma set_clear_subset: "Some x \<in> set (c[j := None]) \<Longrightarrow> Some x \<in> set c"
  using set_update_subset_insert [of c j None] by auto

lemma foldl_cost_mono:
  fixes costFct :: "'p \<Rightarrow> 'c::linorder"
  assumes "\<forall>p e. costFct p \<le> costFct (addFct p e)"
  shows "costFct p \<le> costFct (foldl addFct p es)"
proof (induction es arbitrary: p)
  case Nil
  then show ?case by simp
next
  case (Cons e es)
  have "costFct p \<le> costFct (addFct p e)" using assms by simp
  also have "\<dots> \<le> costFct (foldl addFct (addFct p e) es)" by (rule Cons.IH)
  finally show ?case by simp
qed

text \<open>
  The invariant of the search, for the set \<open>A\<close> of all complete plans: work items only
  stand for plans of \<open>A\<close>; the best plan is a plan of \<open>A\<close> with its cost; and every plan
  of \<open>A\<close> is still ahead in some work item or costs at least the best cost.
\<close>

definition search_inv ::
  "('p \<Rightarrow> 'e \<Rightarrow> 'p) \<Rightarrow> ('p \<Rightarrow> 'c::linorder) \<Rightarrow> 'p set \<Rightarrow> ('p, 'e, 'c) state \<Rightarrow> bool" where
  "search_inv addFct costFct A s =
     ((\<forall>it\<in>set (stack s). completions addFct it \<subseteq> A) \<and>
      (\<forall>m. min_plan s = Some m \<longrightarrow> best m \<in> A \<and> cost m = costFct (best m)) \<and>
      (\<forall>p\<in>A. (\<exists>it\<in>set (stack s). p \<in> completions addFct it) \<or>
              (\<exists>m. min_plan s = Some m \<and> cost m \<le> costFct p)))"

lemma search_inv_iteration:
  fixes costFct :: "'p \<Rightarrow> 'c::linorder"
  assumes mono: "\<forall>p e. costFct p \<le> costFct (addFct p e)"
    and inv: "search_inv addFct costFct A s"
    and ne: "stack s \<noteq> []"
    and it: "iteration addFct costFct s = Inr s'"
  shows "search_inv addFct costFct A s'"
proof -
  from it ne obtain item stk1 c rest j e where
    st: "stack s = stk1 @ [item]" and rem: "remaining item = c # rest" and
    pick: "pickNext (index item) c = Inr j" and j: "j < length c" and e: "c ! j = Some e" and
    sub: "set (stack s') \<subseteq> set stk1
        \<union> (if \<exists>k<length c. k \<noteq> j \<and> c ! k \<noteq> None then {sibling item c rest j} else {})
        \<union> (if rest = [] then {} else {continuation addFct item rest e})" and
    old: "set stk1 \<subseteq> set (stack s')" and
    sib: "\<exists>k<length c. k \<noteq> j \<and> c ! k \<noteq> None \<Longrightarrow> sibling item c rest j \<in> set (stack s')" and
    unf: "rest \<noteq> [] \<Longrightarrow> min_plan s' = min_plan s \<and> onPlan_calls s' = onPlan_calls s \<and>
        (continuation addFct item rest e \<in> set (stack s') \<or>
         (\<exists>m. min_plan s = Some m \<and> cost m \<le> costFct (addFct (partial item) e)))" and
    fin: "rest = [] \<Longrightarrow>
        min_plan s' = (if (case min_plan s of None \<Rightarrow> True
                           | Some m \<Rightarrow> costFct (addFct (partial item) e) < cost m)
                       then Some \<lparr>best = addFct (partial item) e, cost = costFct (addFct (partial item) e)\<rparr>
                       else min_plan s) \<and>
        onPlan_calls s' = onPlan_calls s
           @ [(addFct (partial item) e, costFct (addFct (partial item) e), map_option cost (min_plan s))]"
    by (rule iteration_effect) (rule that)
  let ?new = "addFct (partial item) e"
  let ?prod = "set (product_lists (map candidates rest))"
  have inv1: "\<forall>it\<in>set (stack s). completions addFct it \<subseteq> A"
    and inv2: "\<forall>m. min_plan s = Some m \<longrightarrow> best m \<in> A \<and> cost m = costFct (best m)"
    and inv3: "\<forall>p\<in>A. (\<exists>it\<in>set (stack s). p \<in> completions addFct it) \<or>
              (\<exists>m. min_plan s = Some m \<and> cost m \<le> costFct p)"
    using inv unfolding search_inv_def by blast+
  have item_in: "item \<in> set (stack s)" using st by simp
  have comp_item: "p \<in> completions addFct item \<longleftrightarrow>
      (\<exists>x es. Some x \<in> set c \<and> es \<in> ?prod \<and> p = foldl addFct (addFct (partial item) x) es)" for p
    unfolding completions_Cons [OF rem] by auto
  have comp_sib: "p \<in> completions addFct (sibling item c rest j) \<longleftrightarrow>
      (\<exists>x es. Some x \<in> set (c[j := None]) \<and> es \<in> ?prod \<and>
         p = foldl addFct (addFct (partial item) x) es)" for p
    using completions_Cons [of "sibling item c rest j" "c[j := None]" rest addFct]
    by (auto simp: sibling_def)
  have comp_cont: "p \<in> completions addFct (continuation addFct item rest e) \<longleftrightarrow>
      (\<exists>es. es \<in> ?prod \<and> p = foldl addFct ?new es)" for p
    by (auto simp: completions_def continuation_def)
  have e_in: "Some e \<in> set c" using j e by (metis nth_mem)
  have sib_sub: "completions addFct (sibling item c rest j) \<subseteq> completions addFct item"
  proof
    fix p assume "p \<in> completions addFct (sibling item c rest j)"
    then show "p \<in> completions addFct item"
      using set_clear_subset [of _ c j] comp_sib [of p] comp_item [of p] by blast
  qed
  have cont_sub: "completions addFct (continuation addFct item rest e) \<subseteq> completions addFct item"
  proof
    fix p assume "p \<in> completions addFct (continuation addFct item rest e)"
    then show "p \<in> completions addFct item"
      using e_in comp_cont [of p] comp_item [of p] by blast
  qed
  have item_sub: "completions addFct item \<subseteq> A" using inv1 item_in by simp
  \<comment> \<open>the best plan never gets more expensive\<close>
  have min_le: "\<exists>m'. min_plan s' = Some m' \<and> cost m' \<le> cost m" if "min_plan s = Some m" for m
    using that unf fin by (cases "rest = []") auto
  \<comment> \<open>first part\<close>
  have new1: "\<forall>it\<in>set (stack s'). completions addFct it \<subseteq> A"
  proof
    fix it assume "it \<in> set (stack s')"
    then consider "it \<in> set stk1" | "it = sibling item c rest j" | "it = continuation addFct item rest e"
      using sub by (auto split: if_splits)
    then show "completions addFct it \<subseteq> A"
    proof cases
      case 1
      then show ?thesis using inv1 st by simp
    next
      case 2
      then show ?thesis using sib_sub item_sub by simp
    next
      case 3
      then show ?thesis using cont_sub item_sub by simp
    qed
  qed
  \<comment> \<open>second part\<close>
  have new_complete: "?new \<in> completions addFct item" if "rest = []"
  proof -
    have "Some e \<in> set c \<and> [] \<in> ?prod \<and> ?new = foldl addFct (addFct (partial item) e) []"
      using that e_in by simp
    then show ?thesis unfolding comp_item by blast
  qed
  have new2: "\<forall>m. min_plan s' = Some m \<longrightarrow> best m \<in> A \<and> cost m = costFct (best m)"
  proof (cases "rest = []")
    case True
    have "?new \<in> A" using new_complete [OF True] item_sub by auto
    then show ?thesis using fin [OF True] inv2 by (auto split: if_splits)
  next
    case False
    then show ?thesis using unf inv2 by simp
  qed
  \<comment> \<open>third part\<close>
  have covered_new: "\<exists>m. min_plan s' = Some m \<and> cost m \<le> costFct ?new" if "rest = []"
  proof (cases "min_plan s")
    case None
    then show ?thesis using fin [OF that] by simp
  next
    case (Some m)
    then show ?thesis using fin [OF that] by (cases "costFct ?new < cost m") auto
  qed
  have new3: "\<forall>p\<in>A. (\<exists>it\<in>set (stack s'). p \<in> completions addFct it) \<or>
              (\<exists>m. min_plan s' = Some m \<and> cost m \<le> costFct p)"
  proof
    fix p assume "p \<in> A"
    with inv3 consider
        (stack) it where "it \<in> set (stack s)" "p \<in> completions addFct it"
      | (min) m where "min_plan s = Some m" "cost m \<le> costFct p"
      by blast
    then show "(\<exists>it\<in>set (stack s'). p \<in> completions addFct it) \<or>
              (\<exists>m. min_plan s' = Some m \<and> cost m \<le> costFct p)"
    proof cases
      case min
      from min_le [OF min(1)] obtain m' where "min_plan s' = Some m'" "cost m' \<le> cost m" by blast
      then show ?thesis using min(2) by auto
    next
      case stack
      show ?thesis
      proof (cases "it \<in> set stk1")
        case True
        then show ?thesis using old stack(2) by blast
      next
        case False
        then have "it = item" using stack(1) st by simp
        then obtain x es where x: "Some x \<in> set c" "es \<in> ?prod"
            "p = foldl addFct (addFct (partial item) x) es"
          using stack(2) comp_item [of p] by blast
        from set_clear [OF j e x(1)] show ?thesis
        proof
          assume "Some x \<in> set (c[j := None]) \<and> (\<exists>k<length c. k \<noteq> j \<and> c ! k \<noteq> None)"
          then have "sibling item c rest j \<in> set (stack s')" "p \<in> completions addFct (sibling item c rest j)"
            using sib x comp_sib [of p] by blast+
          then show ?thesis by blast
        next
          assume xe: "x = e"
          show ?thesis
          proof (cases "rest = []")
            case True
            then have "es = []" using x(2) by simp
            then have "p = ?new" using x(3) xe by simp
            then show ?thesis using covered_new [OF True] by simp
          next
            case False
            from unf [OF False] have same: "min_plan s' = min_plan s"
              and alt: "continuation addFct item rest e \<in> set (stack s') \<or>
                 (\<exists>m. min_plan s = Some m \<and> cost m \<le> costFct ?new)"
              by simp_all
            from alt show ?thesis
            proof
              assume "continuation addFct item rest e \<in> set (stack s')"
              moreover have "p \<in> completions addFct (continuation addFct item rest e)"
                using x xe comp_cont [of p] by blast
              ultimately show ?thesis by blast
            next
              assume "\<exists>m. min_plan s = Some m \<and> cost m \<le> costFct ?new"
              then obtain m where m: "min_plan s = Some m" "cost m \<le> costFct ?new" by blast
              have "costFct ?new \<le> costFct p"
                unfolding x(3) xe by (rule foldl_cost_mono [OF mono])
              then show ?thesis using m same by auto
            qed
          qed
        qed
      qed
    qed
  qed
  show ?thesis unfolding search_inv_def using new1 new2 new3 by blast
qed


lemma search_inv_initial:
  "search_inv addFct costFct (complete_plans addFct initial toAdd) (initial_state initial toAdd)"
  unfolding search_inv_def initial_state_def by (simp add: completions_initial)

text \<open>Whenever the call returns, it returns a cheapest complete plan with its cost.\<close>

lemma result_is_cheapest:
  fixes initial :: 'p and toAdd :: "'e Choices list" and costFct :: "'p \<Rightarrow> 'c::linorder"
  assumes mono: "\<forall>p e. costFct p \<le> costFct (addFct p e)"
    and res: "generateAllPlansAndFindBest initial toAdd addFct costFct = Inr r"
  shows "cost r = Min (costFct ` complete_plans addFct initial toAdd) \<and>
         best r \<in> complete_plans addFct initial toAdd \<and> costFct (best r) = cost r"
proof -
  let ?A = "complete_plans addFct initial toAdd"
  let ?s0 = "initial_state initial toAdd :: ('p, 'e, 'c) state"
  have "(\<exists>s'. loop addFct costFct ?s0 = Inr s' \<and> search_inv addFct costFct ?A s' \<and> stack s' = []) \<or>
        (\<exists>t err. loop addFct costFct ?s0 = Inl err \<and> search_inv addFct costFct ?A t \<and>
            stack t \<noteq> [] \<and> iteration addFct costFct t = Inl err)"
  proof (rule loop_cases)
    show "search_inv addFct costFct ?A ?s0" by (rule search_inv_initial)
  next
    fix t t' :: "('p, 'e, 'c) state"
    assume "search_inv addFct costFct ?A t" "stack t \<noteq> []" "iteration addFct costFct t = Inr t'"
    then show "search_inv addFct costFct ?A t'" by (rule search_inv_iteration [OF mono])
  qed
  moreover have "\<not> (\<exists>err. loop addFct costFct ?s0 = Inl err)"
    using res by (auto simp: generateAllPlansAndFindBest_def)
  ultimately obtain s' where s': "loop addFct costFct ?s0 = Inr s'"
      "search_inv addFct costFct ?A s'" "stack s' = []"
    by blast
  have mn: "min_plan s' = Some r"
    using res s'(1) by (simp add: generateAllPlansAndFindBest_def split: option.splits)
  have inA: "best r \<in> ?A" and cm: "cost r = costFct (best r)"
    using mn s'(2) unfolding search_inv_def by auto
  have least: "cost r \<le> costFct p" if "p \<in> ?A" for p
    using s'(2,3) mn that unfolding search_inv_def by auto
  have "finite ?A" by (simp add: complete_plans_def)
  have "Min (costFct ` ?A) = cost r"
  proof (rule Min_eqI)
    show "finite (costFct ` ?A)" using \<open>finite ?A\<close> by simp
    show "cost r \<in> costFct ` ?A" using inA cm by simp
    show "cost r \<le> y" if "y \<in> costFct ` ?A" for y using that least by auto
  qed
  then show ?thesis using inA cm by simp
qed

text \<open>A cost that never decreases: plans are lists of natural numbers, the cost their sum.\<close>

definition add_contribution :: "nat list \<Rightarrow> nat \<Rightarrow> nat list" where
  "add_contribution p e = p @ [e]"

definition total_contribution :: "nat list \<Rightarrow> nat" where
  "total_contribution p = sum_list p"

lemma total_contribution_mono:
  "\<forall>p e. total_contribution p \<le> total_contribution (add_contribution p e)"
  by (simp add: total_contribution_def add_contribution_def)

text \<open>
  C1, as stated, asks of the choice sets only that each contains a candidate. The set
  \<open>[undefined, 1]\<close> does, and the cost above never decreases, but the root item asks for
  index 0, whose slot is empty: the assertion of \<open>pickNext\<close> fails, and no pair is returned.
\<close>

theorem empty_first_slot_counterexample:
  "generateAllPlansAndFindBest [] [[None, Some 1]] add_contribution total_contribution
     = Inl (AssertionError ''Invalid index'')"
  by code_simp

text \<open>
  C1, amended. Take a cost that never decreases when a candidate is added to a plan. For
  a non-empty choice list whose choice sets are non-empty arrays without empty slot, the
  call returns a pair whose cost is the minimum of \<open>costFct\<close> over all complete plans of
  the cartesian product, and whose plan is one of those complete plans and has that cost.
  On any choice list, whenever the call returns a pair, it is such a pair (for the
  candidates in the populated slots).
\<close>

theorem returns_cheapest_plan:
  fixes initial :: 'p and toAdd :: "'e Choices list" and costFct :: "'p \<Rightarrow> 'c::linorder"
  assumes "\<forall>p e. costFct p \<le> costFct (addFct p e)"
  shows "(toAdd \<noteq> [] \<and> (\<forall>c\<in>set toAdd. c \<noteq> [] \<and> None \<notin> set c) \<longrightarrow>
            (\<exists>r. generateAllPlansAndFindBest initial toAdd addFct costFct = Inr r \<and>
                 cost r = Min (costFct ` set (all_plans addFct initial (map candidates toAdd))) \<and>
                 best r \<in> set (all_plans addFct initial (map candidates toAdd)) \<and>
                 costFct (best r) = cost r)) \<and>
         (\<forall>r. generateAllPlansAndFindBest initial toAdd addFct costFct = Inr r \<longrightarrow>
              cost r = Min (costFct ` set (all_plans addFct initial (map candidates toAdd))) \<and>
              best r \<in> set (all_plans addFct initial (map candidates toAdd)) \<and>
              costFct (best r) = cost r)"
proof (rule conjI)
  show "\<forall>r. generateAllPlansAndFindBest initial toAdd addFct costFct = Inr r \<longrightarrow>
              cost r = Min (costFct ` set (all_plans addFct initial (map candidates toAdd))) \<and>
              best r \<in> set (all_plans addFct initial (map candidates toAdd)) \<and>
              costFct (best r) = cost r"
    using result_is_cheapest [OF assms] unfolding complete_plans_def by blast
  show "toAdd \<noteq> [] \<and> (\<forall>c\<in>set toAdd. c \<noteq> [] \<and> None \<notin> set c) \<longrightarrow>
            (\<exists>r. generateAllPlansAndFindBest initial toAdd addFct costFct = Inr r \<and>
                 cost r = Min (costFct ` set (all_plans addFct initial (map candidates toAdd))) \<and>
                 best r \<in> set (all_plans addFct initial (map candidates toAdd)) \<and>
                 costFct (best r) = cost r)"
  proof (rule impI)
    assume full: "toAdd \<noteq> [] \<and> (\<forall>c\<in>set toAdd. c \<noteq> [] \<and> None \<notin> set c)"
    have "\<exists>s' m. loop addFct costFct (initial_state initial toAdd :: ('p, 'e, 'c) state) = Inr s' \<and>
             stack s' = [] \<and> min_plan s' = Some m \<and> True"
      by (rule wf_state_loop [where I = "\<lambda>s. True"]) (use full in \<open>simp_all add: wf_state_initial\<close>)
    then obtain r where r: "generateAllPlansAndFindBest initial toAdd addFct costFct = Inr r"
      by (auto simp: generateAllPlansAndFindBest_def)
    from result_is_cheapest [OF assms this] r
    show "\<exists>r. generateAllPlansAndFindBest initial toAdd addFct costFct = Inr r \<and>
             cost r = Min (costFct ` set (all_plans addFct initial (map candidates toAdd))) \<and>
             best r \<in> set (all_plans addFct initial (map candidates toAdd)) \<and>
             costFct (best r) = cost r"
      unfolding complete_plans_def by (intro exI [of _ r]) simp
  qed
qed

theorem returns_cheapest_plan_witness:
  "(\<exists>r. generateAllPlansAndFindBest [] [[Some 1, Some 5], [Some 2, Some 1], [Some 0]]
          add_contribution total_contribution = Inr r \<and>
       cost r = 2 \<and>
       best r \<in> set (all_plans add_contribution [] [[1, 5], [2, 1], [0]]) \<and>
       total_contribution (best r) = 2) \<and>
   (\<exists>r. generateAllPlansAndFindBest [] [[Some 3, None], [Some 2, Some 1]]
          add_contribution total_contribution = Inr r \<and>
       cost r = 4 \<and>
       best r \<in> set (all_plans add_contribution [] [[3], [2, 1]]) \<and>
       total_contribution (best r) = 4)"
proof -
  let ?T = "[[Some 1, Some 5], [Some 2, Some 1], [Some (0::nat)]]"
  have a: "?T \<noteq> [] \<and> (\<forall>c\<in>set ?T. c \<noteq> [] \<and> None \<notin> set c)" by simp
  have b: "map candidates ?T = [[1, 5], [2, 1], [0]]" by (simp add: candidates_def)
  have c: "Min (total_contribution ` set (all_plans add_contribution [] [[1, 5], [2, 1], [0]])) = 2"
    by (simp add: all_plans_def total_contribution_def add_contribution_def)
  have first: "\<exists>r. generateAllPlansAndFindBest [] ?T add_contribution total_contribution = Inr r \<and>
       cost r = 2 \<and>
       best r \<in> set (all_plans add_contribution [] [[1, 5], [2, 1], [0]]) \<and>
       total_contribution (best r) = 2"
    using returns_cheapest_plan [OF total_contribution_mono, of ?T "[]", THEN conjunct1, THEN mp, OF a]
    unfolding b c by auto
  let ?H = "[[Some 3, None], [Some 2, Some (1::nat)]]"
  have "case generateAllPlansAndFindBest [] ?H add_contribution total_contribution of
          Inl err \<Rightarrow> False | Inr r \<Rightarrow> True"
    by code_simp
  then obtain r where r: "generateAllPlansAndFindBest [] ?H add_contribution total_contribution = Inr r"
    by (auto split: sum.splits)
  have d: "map candidates ?H = [[3], [2, 1]]" by (simp add: candidates_def)
  have e: "Min (total_contribution ` set (all_plans add_contribution [] [[3], [2, 1]])) = 4"
    by (simp add: all_plans_def total_contribution_def add_contribution_def)
  have "cost r = 4 \<and> best r \<in> set (all_plans add_contribution [] [[3], [2, 1]]) \<and>
        total_contribution (best r) = 4"
    using returns_cheapest_plan [OF total_contribution_mono, of ?H "[]", THEN conjunct2, THEN spec,
        THEN mp, OF r]
    unfolding d e by simp
  then have second: "\<exists>r. generateAllPlansAndFindBest [] ?H add_contribution total_contribution = Inr r \<and>
       cost r = 4 \<and>
       best r \<in> set (all_plans add_contribution [] [[3], [2, 1]]) \<and>
       total_contribution (best r) = 4"
    using r by (intro exI [of _ r]) simp
  show ?thesis using first second by (rule conjI)
qed

end
